theory Spec2Isabelle
  imports Complex_Main "HOL-Library.Word"
begin

section \<open>The in-memory aggregator (aggregate.go)\<close>

text \<open>
  Timestamps are \<open>float64\<close> in the source; they are only ever copied and compared, so they
  are modelled as \<open>real\<close> (the order of the finite floats; NaN is outside the model).
  Counters are Go \<open>uint\<close> (64 bits on the usual targets): \<open>64 word\<close>, addition wraps.
  Strings are byte strings, \<open>len\<close> counts bytes: \<open>string\<close> and \<open>length\<close>.
\<close>

definition MAX_SANE_VALUE_LEN :: nat where
  "MAX_SANE_VALUE_LEN = 1000"

text \<open>\<open>strings.Index(s, c)\<close> for a one-byte needle: position of the first match, or \<open>-1\<close>.\<close>

fun Index :: "string \<Rightarrow> char \<Rightarrow> int" where
  "Index [] c = - 1"
| "Index (x # xs) c =
     (if x = c then 0 else (let i = Index xs c in if i = - 1 then - 1 else i + 1))"

definition stripDecimal :: "string \<Rightarrow> string" where
  "stripDecimal val =
     (if val = ''-'' then ''0''
      else (let idx = Index val CHR ''.'' in
            if idx = - 1 then val else take (nat idx) val))"

record DNSRecord =
  ts :: real
  query :: string
  qtype :: string
  answers :: "string list"
  ttls :: "string list"

text \<open>
  The two key structs. Their fields carry the prefix \<open>u_\<close>, since \<open>query\<close> and
  \<open>qtype\<close> are fields of \<open>DNSRecord\<close> already. In \<open>queryStat\<close> the field \<open>last\<close>
  is written \<open>last'\<close>, and in \<open>DNSAggregator\<close> the field \<open>values\<close> is written
  \<open>vals\<close>: the plain names are taken.
\<close>

record uniqueTuple =
  u_query :: string
  u_answer :: string
  u_qtype :: string

record uniqueIndividual =
  u_value :: string
  u_which :: string

record queryStat =
  count :: "64 word"
  first :: real
  last' :: real
  ttl :: string

text \<open>
  Both maps of the aggregator hold pointers (\<open>*queryStat\<close>), and \<open>Merge\<close> copies pointers
  from one aggregator into another, so the statistics live in an explicit store: the list
  of all \<open>queryStat\<close> objects allocated so far, an address being an index into it. A Go
  map is an association list with distinct keys; its order stands for one of the iteration
  orders the runtime may choose.
\<close>

type_synonym addr = nat
type_synonym store = "queryStat list"

record DNSAggregator =
  queries :: "(uniqueTuple \<times> addr) list"
  vals :: "(uniqueIndividual \<times> addr) list"
  totalRecords :: "64 word"
  skippedRecords :: "64 word"

text \<open>The field \<open>start\<close> (wall-clock time of creation) is not modelled.\<close>

definition NewDNSAggregator :: DNSAggregator where
  "NewDNSAggregator = \<lparr>queries = [], vals = [], totalRecords = 0, skippedRecords = 0\<rparr>"

definition SkipRecord :: "DNSAggregator \<Rightarrow> DNSAggregator" where
  "SkipRecord d = d\<lparr>skippedRecords := skippedRecords d + 1\<rparr>"

text \<open>
  \<open>AddRecord\<close> contains the same block three times: look the key up; if the pointer is nil,
  allocate \<open>&queryStat{first: r.ts, last: r.ts, ttl: ttl, count: 1}\<close> and store it under the
  key, else \<open>count++\<close>, \<open>last = r.ts\<close> and \<open>ttl = ttl\<close> through the pointer. The copy for the
  query value neither sets nor updates \<open>ttl\<close>: that is the argument \<open>None\<close>.
\<close>

definition newStat :: "real \<Rightarrow> string option \<Rightarrow> queryStat" where
  "newStat t ttlo =
     \<lparr>count = 1, first = t, last' = t, ttl = (case ttlo of None \<Rightarrow> [] | Some x \<Rightarrow> x)\<rparr>"

definition hitStat :: "real \<Rightarrow> string option \<Rightarrow> queryStat \<Rightarrow> queryStat" where
  "hitStat t ttlo rec =
     (case ttlo of
        None \<Rightarrow> rec\<lparr>count := count rec + 1, last' := t\<rparr>
      | Some x \<Rightarrow> rec\<lparr>count := count rec + 1, last' := t, ttl := x\<rparr>)"

definition upsertStat ::
  "store \<Rightarrow> ('k \<times> addr) list \<Rightarrow> 'k \<Rightarrow> real \<Rightarrow> string option \<Rightarrow> store \<times> ('k \<times> addr) list" where
  "upsertStat s m k t ttlo =
     (case map_of m k of
        None \<Rightarrow> (s @ [newStat t ttlo], m @ [(k, length s)])
      | Some rec \<Rightarrow> (s[rec := hitStat t ttlo (s ! rec)], m))"

datatype error = IndexOutOfRange

text \<open>
  The loop \<open>for idx, answer := range r.answers\<close>. \<open>r.ttls[idx]\<close> panics when \<open>ttls\<close> is
  shorter than \<open>answers\<close>; the panic is the result \<open>Inl IndexOutOfRange\<close>. The early
  \<open>return\<close> on an over-long answer keeps everything done so far.
\<close>

fun answersLoop ::
  "DNSRecord \<Rightarrow> nat \<Rightarrow> string list \<Rightarrow> store \<Rightarrow> DNSAggregator \<Rightarrow> error + store \<times> DNSAggregator" where
  "answersLoop r idx [] s d = Inr (s, d)"
| "answersLoop r idx (answer # rest) s d =
     (if length answer > MAX_SANE_VALUE_LEN
      then Inr (s, d\<lparr>skippedRecords := skippedRecords d + 1\<rparr>)
      else if answer = ''-'' then answersLoop r (Suc idx) rest s d
      else if length (ttls r) \<le> idx then Inl IndexOutOfRange
      else (let ttl = stripDecimal (ttls r ! idx);
                uquery = \<lparr>u_query = query r, u_answer = answer, u_qtype = qtype r\<rparr>;
                (s1, qs) = upsertStat s (queries d) uquery (ts r) (Some ttl);
                answer_value = \<lparr>u_value = answer, u_which = ''A''\<rparr>;
                (s2, vs) = upsertStat s1 (vals d) answer_value (ts r) (Some ttl)
            in answersLoop r (Suc idx) rest s2 (d\<lparr>queries := qs, vals := vs\<rparr>)))"

definition AddRecord :: "store \<Rightarrow> DNSAggregator \<Rightarrow> DNSRecord \<Rightarrow> error + store \<times> DNSAggregator" where
  "AddRecord s d r =
     (if length (query r) > MAX_SANE_VALUE_LEN
      then Inr (s, d\<lparr>skippedRecords := skippedRecords d + 1\<rparr>)
      else (let d1 = d\<lparr>totalRecords := totalRecords d + 1\<rparr>;
                query_value = \<lparr>u_value = query r, u_which = ''Q''\<rparr>;
                (s1, vs) = upsertStat s (vals d1) query_value (ts r) None
            in answersLoop r 0 (answers r) s1 (d1\<lparr>vals := vs\<rparr>)))"

text \<open>Feeding a list of records in order, as \<open>aggregate\<close> does; a panic ends the run.\<close>

fun AddRecords :: "store \<Rightarrow> DNSAggregator \<Rightarrow> DNSRecord list \<Rightarrow> error + store \<times> DNSAggregator" where
  "AddRecords s d [] = Inr (s, d)"
| "AddRecords s d (r # rs) =
     (case AddRecord s d r of Inl e \<Rightarrow> Inl e | Inr (s1, d1) \<Rightarrow> AddRecords s1 d1 rs)"

record aggregationResult =
  TotalRecords :: "64 word"
  SkippedRecords :: "64 word"
  Tuples :: "(uniqueTuple \<times> queryStat) list"
  TuplesLen :: int
  Individual :: "(uniqueIndividual \<times> queryStat) list"
  IndividualLen :: int

text \<open>\<open>GetResult\<close> copies every statistic (\<open>*stat\<close>); \<open>Duration\<close> is not modelled.\<close>

definition GetResult :: "store \<Rightarrow> DNSAggregator \<Rightarrow> aggregationResult" where
  "GetResult s d =
     (let tuples = map (\<lambda>(q, stat). (q, s ! stat)) (queries d);
          individual = map (\<lambda>(v, stat). (v, s ! stat)) (vals d)
      in \<lparr>TotalRecords = totalRecords d, SkippedRecords = skippedRecords d,
          Tuples = tuples, TuplesLen = int (length tuples),
          Individual = individual, IndividualLen = int (length individual)\<rparr>)"

text \<open>
  The body of the \<open>else\<close> branch of \<open>Merge\<close>, statement by statement, on the objects at the
  addresses \<open>rec\<close> and \<open>stat\<close> (which may be the same object).
\<close>

definition mergeStat :: "store \<Rightarrow> addr \<Rightarrow> addr \<Rightarrow> store" where
  "mergeStat s rec stat =
     (let s1 = s[rec := (s ! rec)\<lparr>count := count (s ! rec) + count (s ! stat)\<rparr>];
          s2 = (if first (s1 ! stat) < first (s1 ! rec)
                then s1[rec := (s1 ! rec)\<lparr>first := first (s1 ! stat)\<rparr>] else s1);
          s3 = (if last' (s2 ! stat) > last' (s2 ! rec)
                then s2[rec := (s2 ! rec)\<lparr>last' := last' (s2 ! stat)\<rparr>] else s2)
      in s3[rec := (s3 ! rec)\<lparr>ttl := ttl (s3 ! stat)\<rparr>])"

text \<open>One of the two loops of \<open>Merge\<close>; they differ in the map they walk only.\<close>

fun mergeInto ::
  "store \<Rightarrow> ('k \<times> addr) list \<Rightarrow> ('k \<times> addr) list \<Rightarrow> store \<times> ('k \<times> addr) list" where
  "mergeInto s m [] = (s, m)"
| "mergeInto s m ((q, stat) # rest) =
     (case map_of m q of
        None \<Rightarrow> mergeInto s (m @ [(q, stat)]) rest
      | Some rec \<Rightarrow> mergeInto (mergeStat s rec stat) m rest)"

definition Merge :: "store \<Rightarrow> DNSAggregator \<Rightarrow> DNSAggregator \<Rightarrow> store \<times> DNSAggregator" where
  "Merge s d other =
     (let (s1, qs) = mergeInto s (queries d) (queries other);
          (s2, vs) = mergeInto s1 (vals d) (vals other)
      in (s2, d\<lparr>queries := qs, vals := vs\<rparr>))"

text \<open>The statistic an aggregator holds for a key: lookup, then dereference.\<close>

definition statOf :: "store \<Rightarrow> ('k \<times> addr) list \<Rightarrow> 'k \<Rightarrow> queryStat option" where
  "statOf s m k = map_option (\<lambda>a. s ! a) (map_of m k)"


section \<open>The PostgreSQL store (store_pg.go)\<close>

subsection \<open>The schema and its two upsert procedures (\<open>pgschema\<close>)\<close>

text \<open>
  A table with a primary key is a map from the key to the other columns. \<open>timestamp\<close>
  is a linearly ordered column type, stored by the server as a 64-bit count of
  microseconds: an integer here. \<open>bigint\<close> addition raises an error outside 64 bits and
  an \<open>integer\<close> parameter takes 32-bit values only. The procedures run in one session;
  other sessions are not part of the model.
\<close>

type_synonym timestamp = int

record tuplesRow =
  t_count :: int
  t_ttl :: int
  t_first :: timestamp
  t_last :: timestamp

record individualRow =
  i_count :: int
  i_first :: timestamp
  i_last :: timestamp

text \<open>Keys: \<open>(query, type, answer)\<close> and \<open>(which, value)\<close>.\<close>

type_synonym tuplesTable = "string \<times> string \<times> string \<rightharpoonup> tuplesRow"
type_synonym individualTable = "string \<times> string \<rightharpoonup> individualRow"

datatype sqlerror = unique_violation | numeric_value_out_of_range | invalid_integer_input

definition int8_ok :: "int \<Rightarrow> bool" where
  "int8_ok n \<longleftrightarrow> - (2 ^ 63) \<le> n \<and> n < 2 ^ 63"

definition int4_ok :: "int \<Rightarrow> bool" where
  "int4_ok n \<longleftrightarrow> - (2 ^ 31) \<le> n \<and> n < 2 ^ 31"

text \<open>The \<open>UPDATE ... WHERE\<close> statement of each procedure, with the value of \<open>found\<close>.\<close>

definition UPDATE_individual ::
  "individualTable \<Rightarrow> string \<Rightarrow> string \<Rightarrow> int \<Rightarrow> timestamp \<Rightarrow> timestamp
     \<Rightarrow> sqlerror + individualTable \<times> bool" where
  "UPDATE_individual tab w v c f l =
     (case tab (w, v) of
        None \<Rightarrow> Inr (tab, False)
      | Some row \<Rightarrow>
          if int8_ok (i_count row + c)
          then Inr (tab((w, v) \<mapsto> \<lparr>i_count = i_count row + c, i_first = min f (i_first row),
                                   i_last = max l (i_last row)\<rparr>), True)
          else Inl numeric_value_out_of_range)"

definition INSERT_individual ::
  "individualTable \<Rightarrow> string \<Rightarrow> string \<Rightarrow> int \<Rightarrow> timestamp \<Rightarrow> timestamp
     \<Rightarrow> sqlerror + individualTable" where
  "INSERT_individual tab w v c f l =
     (if tab (w, v) \<noteq> None then Inl unique_violation
      else Inr (tab((w, v) \<mapsto> \<lparr>i_count = c, i_first = f, i_last = l\<rparr>)))"

definition UPDATE_tuples ::
  "tuplesTable \<Rightarrow> string \<Rightarrow> string \<Rightarrow> string \<Rightarrow> int \<Rightarrow> int \<Rightarrow> timestamp \<Rightarrow> timestamp
     \<Rightarrow> sqlerror + tuplesTable \<times> bool" where
  "UPDATE_tuples tab q ty a tt c f l =
     (case tab (q, ty, a) of
        None \<Rightarrow> Inr (tab, False)
      | Some row \<Rightarrow>
          if int8_ok (t_count row + c)
          then Inr (tab((q, ty, a) \<mapsto> \<lparr>t_count = t_count row + c, t_ttl = tt,
                                       t_first = min f (t_first row),
                                       t_last = max l (t_last row)\<rparr>), True)
          else Inl numeric_value_out_of_range)"

definition INSERT_tuples ::
  "tuplesTable \<Rightarrow> string \<Rightarrow> string \<Rightarrow> string \<Rightarrow> int \<Rightarrow> int \<Rightarrow> timestamp \<Rightarrow> timestamp
     \<Rightarrow> sqlerror + tuplesTable" where
  "INSERT_tuples tab q ty a tt c f l =
     (if tab (q, ty, a) \<noteq> None then Inl unique_violation
      else Inr (tab((q, ty, a) \<mapsto> \<lparr>t_count = c, t_ttl = tt, t_first = f, t_last = l\<rparr>)))"

text \<open>
  The procedures: \<open>LOOP\<close>, update, \<open>RETURN 'U'\<close> if a row was found, else insert and
  \<open>RETURN 'I'\<close>, and go round again on \<open>unique_violation\<close>. Any other error leaves the
  procedure.
\<close>

function update_individual ::
  "individualTable \<Rightarrow> string \<Rightarrow> string \<Rightarrow> int \<Rightarrow> timestamp \<Rightarrow> timestamp
     \<Rightarrow> sqlerror + individualTable \<times> char" where
  "update_individual tab w v c f l =
     (case UPDATE_individual tab w v c f l of
        Inl e \<Rightarrow> Inl e
      | Inr (tab1, found) \<Rightarrow>
          if found then Inr (tab1, CHR ''U'')
          else (case INSERT_individual tab1 w v c f l of
                  Inr tab2 \<Rightarrow> Inr (tab2, CHR ''I'')
                | Inl e \<Rightarrow>
                    if e = unique_violation then update_individual tab1 w v c f l
                    else Inl e))"
  by pat_completeness auto

function update_tuples ::
  "tuplesTable \<Rightarrow> string \<Rightarrow> string \<Rightarrow> string \<Rightarrow> int \<Rightarrow> int \<Rightarrow> timestamp \<Rightarrow> timestamp
     \<Rightarrow> sqlerror + tuplesTable \<times> char" where
  "update_tuples tab q ty a tt c f l =
     (case UPDATE_tuples tab q ty a tt c f l of
        Inl e \<Rightarrow> Inl e
      | Inr (tab1, found) \<Rightarrow>
          if found then Inr (tab1, CHR ''U'')
          else (case INSERT_tuples tab1 q ty a tt c f l of
                  Inr tab2 \<Rightarrow> Inr (tab2, CHR ''I'')
                | Inl e \<Rightarrow>
                    if e = unique_violation then update_tuples tab1 q ty a tt c f l
                    else Inl e))"
  by pat_completeness auto

termination update_individual
proof (relation "{}")
  show "wf {}" by simp
next
  fix tab w v c f l x2 tab1 found e
  assume "UPDATE_individual tab w v c f l = Inr x2" "(tab1, found) = x2" "\<not> found"
    and "INSERT_individual tab1 w v c f l = Inl e"
  then show "((tab1, w, v, c, f, l), (tab, w, v, c, f, l)) \<in> {}"
    by (auto simp: UPDATE_individual_def INSERT_individual_def split: option.splits if_splits)
qed

termination update_tuples
proof (relation "{}")
  show "wf {}" by simp
next
  fix tab q ty a tt c f l x2 tab1 found e
  assume "UPDATE_tuples tab q ty a tt c f l = Inr x2" "(tab1, found) = x2" "\<not> found"
    and "INSERT_tuples tab1 q ty a tt c f l = Inl e"
  then show "((tab1, q, ty, a, tt, c, f, l), (tab, q, ty, a, tt, c, f, l)) \<in> {}"
    by (auto simp: UPDATE_tuples_def INSERT_tuples_def split: option.splits if_splits)
qed

declare update_individual.simps [simp del] update_tuples.simps [simp del]

subsection \<open>The store handle and \<open>Close\<close>\<close>

text \<open>
  Of the handle only whether the connection \<open>conn\<close> is still held matters here. The
  method body is \<open>return s.Close()\<close>: the result of \<open>Close\<close> is the result of \<open>Close\<close>.
  A call that does not return has the value \<open>None\<close>.
\<close>

datatype goerror = BeginTxError | PrepareError | CommitError | CloseError

record PGStore =
  conn_open :: bool

partial_function (option) Close :: "PGStore \<Rightarrow> (goerror option \<times> PGStore) option" where
  "Close s = Close s"

subsection \<open>\<open>Update\<close>\<close>

text \<open>
  What \<open>Update\<close> uses from outside the two files is a parameter: \<open>Reverse\<close> and \<open>ToTS\<close>
  (the latter taken together with the server's \<open>to_timestamp(...)::timestamp\<close>), and an
  environment saying whether \<open>BeginTx\<close>, \<open>Prepare\<close> and \<open>Commit\<close> fail and how the server
  reads a text parameter as an \<open>integer\<close> (\<open>None\<close> when it rejects the text).
  \<open>Duration\<close> is not modelled.
\<close>

datatype stmtKind = TupleStmt | IndividualStmt

record env =
  beginTx_fails :: bool
  prepare_fails :: "stmtKind \<Rightarrow> nat \<Rightarrow> bool"
  commit_fails :: bool
  int4in :: "string \<Rightarrow> int option"

record UpdateResult =
  Inserted :: nat
  Updated :: nat

record database =
  tuples :: tuplesTable
  individual :: individualTable

definition BATCHSIZE :: nat where
  "BATCHSIZE = 200"

text \<open>The parameters of one procedure call, in the order \<open>Update\<close> appends them.\<close>

type_synonym tupleArgs = "string \<times> string \<times> string \<times> string \<times> 64 word \<times> timestamp \<times> timestamp"
type_synonym individualArgs = "string \<times> string \<times> 64 word \<times> timestamp \<times> timestamp"

definition tupleArguments ::
  "(string \<Rightarrow> string) \<Rightarrow> (real \<Rightarrow> timestamp) \<Rightarrow> uniqueTuple \<times> queryStat \<Rightarrow> tupleArgs" where
  "tupleArguments Reverse ToTS q =
     (Reverse (u_query (fst q)), u_qtype (fst q), u_answer (fst q), ttl (snd q),
      count (snd q), ToTS (first (snd q)), ToTS (last' (snd q)))"

definition individualArguments ::
  "(string \<Rightarrow> string) \<Rightarrow> (real \<Rightarrow> timestamp) \<Rightarrow> uniqueIndividual \<times> queryStat \<Rightarrow> individualArgs" where
  "individualArguments Reverse ToTS q =
     (let val = u_value (fst q);
          val = (if u_which (fst q) = ''Q'' then Reverse val else val)
      in (u_which (fst q), val, count (snd q), ToTS (first (snd q)), ToTS (last' (snd q))))"

text \<open>
  One call \<open>update_tuples($1, ..., $7)\<close> inside the batch statement: the text parameter
  for \<open>tt\<close> and the count for \<open>c\<close> are read as \<open>integer\<close>, then the procedure runs.
\<close>

definition call_update_tuples :: "env \<Rightarrow> tuplesTable \<Rightarrow> tupleArgs \<Rightarrow> sqlerror + tuplesTable \<times> char" where
  "call_update_tuples e tab args =
     (case args of (q, ty, a, tt, c, f, l) \<Rightarrow>
        (case int4in e tt of
           None \<Rightarrow> Inl invalid_integer_input
         | Some tti \<Rightarrow>
             if int4_ok (uint c) then update_tuples tab q ty a tti (uint c) f l
             else Inl numeric_value_out_of_range))"

definition call_update_individual ::
  "individualTable \<Rightarrow> individualArgs \<Rightarrow> sqlerror + individualTable \<times> char" where
  "call_update_individual tab args =
     (case args of (w, v, c, f, l) \<Rightarrow>
        if int4_ok (uint c) then update_individual tab w v (uint c) f l
        else Inl numeric_value_out_of_range)"

text \<open>
  The statement built by \<open>genFullBatchSelect\<close> is \<open>SELECT f(...) || f(...) || ...\<close>: the
  calls run one after the other, each on the table the one before has left, and the
  result is the string of their return codes.
\<close>

fun selectBatch ::
  "('t \<Rightarrow> 'a \<Rightarrow> sqlerror + 't \<times> char) \<Rightarrow> 't \<Rightarrow> 'a list \<Rightarrow> sqlerror + 't \<times> string" where
  "selectBatch call tab [] = Inr (tab, [])"
| "selectBatch call tab (x # xs) =
     (case call tab x of
        Inl e \<Rightarrow> Inl e
      | Inr (tab1, ch) \<Rightarrow>
          (case selectBatch call tab1 xs of
             Inl e \<Rightarrow> Inl e
           | Inr (tab2, out) \<Rightarrow> Inr (tab2, ch # out)))"

definition queryTuples :: "env \<Rightarrow> database \<Rightarrow> tupleArgs list \<Rightarrow> sqlerror + database \<times> string" where
  "queryTuples e db arguments =
     (case selectBatch (call_update_tuples e) (tuples db) arguments of
        Inl err \<Rightarrow> Inl err
      | Inr (tab, out) \<Rightarrow> Inr (db\<lparr>tuples := tab\<rparr>, out))"

definition queryIndividual :: "database \<Rightarrow> individualArgs list \<Rightarrow> sqlerror + database \<times> string" where
  "queryIndividual db arguments =
     (case selectBatch call_update_individual (individual db) arguments of
        Inl err \<Rightarrow> Inl err
      | Inr (tab, out) \<Rightarrow> Inr (db\<lparr>individual := tab\<rparr>, out))"

text \<open>
  How a call of \<open>Update\<close> ends: it returns a result and an error value, or \<open>log.Fatal\<close>
  ends the process (\<open>Exited\<close>), or a nil \<open>*sql.Stmt\<close> is used (\<open>Panicked\<close>).
\<close>

datatype outcome = Returned UpdateResult "goerror option" | Exited | Panicked

fun tally :: "UpdateResult \<Rightarrow> string \<Rightarrow> UpdateResult" where
  "tally result [] = result"
| "tally result (ch # update_result) =
     tally (if ch = CHR ''I'' then result\<lparr>Inserted := Inserted result + 1\<rparr>
            else result\<lparr>Updated := Updated result + 1\<rparr>) update_result"

text \<open>
  The closure \<open>runBatch\<close>. The state is the result counted so far and the database as
  the open transaction sees it. The error of \<open>tx.Prepare\<close> for a partial batch is not
  looked at, so a failed one leaves \<open>stmt\<close> nil.
\<close>

definition runBatch ::
  "env \<Rightarrow> stmtKind \<Rightarrow> (database \<Rightarrow> 'a list \<Rightarrow> sqlerror + database \<times> string) \<Rightarrow> 'a list \<Rightarrow> nat
     \<Rightarrow> UpdateResult \<times> database \<Rightarrow> outcome + UpdateResult \<times> database" where
  "runBatch e tmpl stmt arguments batchSize st =
     (if batchSize = 0 then Inr st
      else if batchSize \<noteq> BATCHSIZE \<and> prepare_fails e tmpl batchSize then Inl Panicked
      else (case stmt (snd st) arguments of
              Inl err \<Rightarrow> Inl Exited
            | Inr (db1, update_result) \<Rightarrow> Inr (tally (fst st) update_result, db1)))"

text \<open>The two \<open>for ... range\<close> loops of \<open>Update\<close>: append, count, run a full batch.\<close>

fun batchLoop ::
  "('a list \<Rightarrow> nat \<Rightarrow> UpdateResult \<times> database \<Rightarrow> outcome + UpdateResult \<times> database)
     \<Rightarrow> ('q \<Rightarrow> 'a) \<Rightarrow> 'q list \<Rightarrow> 'a list \<Rightarrow> nat \<Rightarrow> UpdateResult \<times> database
     \<Rightarrow> outcome + 'a list \<times> nat \<times> UpdateResult \<times> database" where
  "batchLoop run mk [] arguments batchCounter st = Inr (arguments, batchCounter, st)"
| "batchLoop run mk (q # qs) arguments batchCounter st =
     (let arguments1 = arguments @ [mk q]; batchCounter1 = Suc batchCounter in
      if batchCounter1 = BATCHSIZE
      then (case run arguments1 batchCounter1 st of
              Inl x \<Rightarrow> Inl x
            | Inr st1 \<Rightarrow> batchLoop run mk qs [] 0 st1)
      else batchLoop run mk qs arguments1 batchCounter1 st)"

text \<open>
  \<open>Update\<close> returns the outcome and the database as the other sessions see it after the
  call: what was there before, unless \<open>Commit\<close> has succeeded.
\<close>

definition Update ::
  "env \<Rightarrow> (string \<Rightarrow> string) \<Rightarrow> (real \<Rightarrow> timestamp) \<Rightarrow> database \<Rightarrow> aggregationResult
     \<Rightarrow> outcome \<times> database" where
  "Update e Reverse ToTS db ar =
     (let result = \<lparr>Inserted = 0, Updated = 0\<rparr> in
      if beginTx_fails e then (Returned result (Some BeginTxError), db)
      else if prepare_fails e TupleStmt BATCHSIZE then (Returned result (Some PrepareError), db)
      else if prepare_fails e IndividualStmt BATCHSIZE
      then (Returned result (Some PrepareError), db)
      else
       (case batchLoop (runBatch e TupleStmt (queryTuples e)) (tupleArguments Reverse ToTS)
               (Tuples ar) [] 0 (result, db) of
          Inl x \<Rightarrow> (x, db)
        | Inr (arguments, batchCounter, st) \<Rightarrow>
       (case runBatch e TupleStmt (queryTuples e) arguments batchCounter st of
          Inl x \<Rightarrow> (x, db)
        | Inr st1 \<Rightarrow>
       (case batchLoop (runBatch e IndividualStmt queryIndividual)
               (individualArguments Reverse ToTS) (Individual ar) [] 0 st1 of
          Inl x \<Rightarrow> (x, db)
        | Inr (arguments, batchCounter, st2) \<Rightarrow>
       (case runBatch e IndividualStmt queryIndividual arguments batchCounter st2 of
          Inl x \<Rightarrow> (x, db)
        | Inr (result1, db1) \<Rightarrow>
            if commit_fails e then (Returned result1 (Some CommitError), db)
            else (Returned result1 None, db1))))))"

section \<open>Auxiliary definitions\<close>

subsection \<open>For the aggregator\<close>

text \<open>
  A fresh aggregator fed a list of records and flattened: what processing one input
  unit produces.
\<close>

definition aggregateRecords :: "DNSRecord list \<Rightarrow> error + aggregationResult" where
  "aggregateRecords rs =
     (case AddRecords [] NewDNSAggregator rs of
        Inl e \<Rightarrow> Inl e
      | Inr (s, d) \<Rightarrow> Inr (GetResult s d))"

text \<open>
  The addresses an aggregator holds, and the states in which its pointers are sound:
  every key once, every address under one key only and allocated.
\<close>

definition heldAddrs :: "DNSAggregator \<Rightarrow> addr list" where
  "heldAddrs d = map snd (queries d) @ map snd (vals d)"

definition allocated :: "store \<Rightarrow> DNSAggregator \<Rightarrow> bool" where
  "allocated s d \<longleftrightarrow> (\<forall>a \<in> set (heldAddrs d). a < length s)"

definition wellFormed :: "store \<Rightarrow> DNSAggregator \<Rightarrow> bool" where
  "wellFormed s d \<longleftrightarrow>
     distinct (map fst (queries d)) \<and> distinct (map fst (vals d)) \<and>
     distinct (heldAddrs d) \<and> allocated s d"

text \<open>Two aggregators that share no \<open>queryStat\<close> object.\<close>

definition separate :: "DNSAggregator \<Rightarrow> DNSAggregator \<Rightarrow> bool" where
  "separate d other \<longleftrightarrow> set (heldAddrs d) \<inter> set (heldAddrs other) = {}"

text \<open>The invariant of the data model: first is not after last, in every statistic held.\<close>

definition firstLeLast :: "store \<Rightarrow> DNSAggregator \<Rightarrow> bool" where
  "firstLeLast s d \<longleftrightarrow> (\<forall>a \<in> set (heldAddrs d). first (s ! a) \<le> last' (s ! a))"

text \<open>
  The combine rule in the words of the specification: counts are added, first is the
  minimum, last the maximum, ttl is the other's; a key of the other map that is absent
  is adopted.
\<close>

definition combine_spec :: "queryStat \<Rightarrow> queryStat \<Rightarrow> queryStat" where
  "combine_spec x y =
     \<lparr>count = count x + count y, first = min (first x) (first y),
      last' = max (last' x) (last' y), ttl = ttl y\<rparr>"

definition merge_spec :: "('k \<rightharpoonup> queryStat) \<Rightarrow> ('k \<rightharpoonup> queryStat) \<Rightarrow> ('k \<rightharpoonup> queryStat)" where
  "merge_spec A B k =
     (case B k of
        None \<Rightarrow> A k
      | Some y \<Rightarrow> (case A k of None \<Rightarrow> Some y | Some x \<Rightarrow> Some (combine_spec x y)))"

text \<open>
  The updates a record applies to a key, in the order in which \<open>AddRecord\<close> applies them,
  each with the timestamp and the normalized TTL it carries (none for the query value).
  The slots the loop reaches are those before the first over-long answer; the sentinel
  is passed over.
\<close>

definition slotsFrom :: "string list \<Rightarrow> string list \<Rightarrow> (string \<times> string) list" where
  "slotsFrom as tt =
     map (\<lambda>(a, t). (a, stripDecimal t))
       (filter (\<lambda>(a, t). a \<noteq> ''-'')
          (zip (takeWhile (\<lambda>a. length a \<le> MAX_SANE_VALUE_LEN) as) tt))"

definition hitsOf :: "real \<Rightarrow> string \<Rightarrow> (string \<times> string) list \<Rightarrow> (real \<times> string option) list" where
  "hitsOf t a sl = map (\<lambda>(x, tt). (t, Some tt)) (filter (\<lambda>(x, tt). x = a) sl)"

definition tupleSlotHits ::
  "DNSRecord \<Rightarrow> uniqueTuple \<Rightarrow> (string \<times> string) list \<Rightarrow> (real \<times> string option) list" where
  "tupleSlotHits r k sl =
     (if query r = u_query k \<and> qtype r = u_qtype k then hitsOf (ts r) (u_answer k) sl else [])"

definition answerSlotHits ::
  "DNSRecord \<Rightarrow> uniqueIndividual \<Rightarrow> (string \<times> string) list \<Rightarrow> (real \<times> string option) list" where
  "answerSlotHits r k sl = (if u_which k = ''A'' then hitsOf (ts r) (u_value k) sl else [])"

definition tupleHits :: "DNSRecord \<Rightarrow> uniqueTuple \<Rightarrow> (real \<times> string option) list" where
  "tupleHits r k =
     (if length (query r) > MAX_SANE_VALUE_LEN then []
      else tupleSlotHits r k (slotsFrom (answers r) (ttls r)))"

definition individualHits :: "DNSRecord \<Rightarrow> uniqueIndividual \<Rightarrow> (real \<times> string option) list" where
  "individualHits r k =
     (if length (query r) > MAX_SANE_VALUE_LEN then []
      else (if k = \<lparr>u_value = query r, u_which = ''Q''\<rparr> then [(ts r, None)] else [])
           @ answerSlotHits r k (slotsFrom (answers r) (ttls r)))"

definition applyHit :: "real \<times> string option \<Rightarrow> queryStat option \<Rightarrow> queryStat option" where
  "applyHit h old =
     (case old of
        None \<Rightarrow> Some (newStat (fst h) (snd h))
      | Some rec \<Rightarrow> Some (hitStat (fst h) (snd h) rec))"

text \<open>The updates a list of records applies to a key, in order.\<close>

definition tupleUpdates :: "DNSRecord list \<Rightarrow> uniqueTuple \<Rightarrow> (real \<times> string option) list" where
  "tupleUpdates rs k = concat (map (\<lambda>r. tupleHits r k) rs)"

definition individualUpdates ::
  "DNSRecord list \<Rightarrow> uniqueIndividual \<Rightarrow> (real \<times> string option) list" where
  "individualUpdates rs k = concat (map (\<lambda>r. individualHits r k) rs)"

subsection \<open>For the store\<close>

text \<open>
  All rows of a snapshot run one after the other, first the tuples, then the individual
  values: what the batches of one call amount to when taken together.
\<close>

definition runAll ::
  "(database \<Rightarrow> 'a list \<Rightarrow> sqlerror + database \<times> string) \<Rightarrow> 'a list
     \<Rightarrow> UpdateResult \<times> database \<Rightarrow> outcome + UpdateResult \<times> database" where
  "runAll stmt rows st =
     (case stmt (snd st) rows of
        Inl err \<Rightarrow> Inl Exited
      | Inr (db1, out) \<Rightarrow> Inr (tally (fst st) out, db1))"

definition runRows ::
  "env \<Rightarrow> (string \<Rightarrow> string) \<Rightarrow> (real \<Rightarrow> timestamp) \<Rightarrow> database \<Rightarrow> aggregationResult
     \<Rightarrow> outcome + UpdateResult \<times> database" where
  "runRows e Reverse ToTS db ar =
     (case runAll (queryTuples e) (map (tupleArguments Reverse ToTS) (Tuples ar))
             (\<lparr>Inserted = 0, Updated = 0\<rparr>, db) of
        Inl x \<Rightarrow> Inl x
      | Inr st1 \<Rightarrow>
          runAll queryIndividual (map (individualArguments Reverse ToTS) (Individual ar)) st1)"

text \<open>A statement that runs its rows in sequence.\<close>

definition seqStmt :: "(database \<Rightarrow> 'a list \<Rightarrow> sqlerror + database \<times> string) \<Rightarrow> bool" where
  "seqStmt stmt \<longleftrightarrow>
     (\<forall>db xs ys. stmt db (xs @ ys) =
        (case stmt db xs of
           Inl e \<Rightarrow> Inl e
         | Inr (db1, out1) \<Rightarrow>
             (case stmt db1 ys of
                Inl e \<Rightarrow> Inl e
              | Inr (db2, out2) \<Rightarrow> Inr (db2, out1 @ out2))))
     \<and> (\<forall>db. stmt db [] = Inr (db, []))"

definition tupleKey :: "tupleArgs \<Rightarrow> string \<times> string \<times> string" where
  "tupleKey args = (case args of (q, ty, a, tt, c, f, l) \<Rightarrow> (q, ty, a))"

definition individualKey :: "individualArgs \<Rightarrow> string \<times> string" where
  "individualKey args = (case args of (w, v, c, f, l) \<Rightarrow> (w, v))"

text \<open>
  The combine rule in the words of the specification, on the rows of the two tables:
  counts are added, first is the smaller, last the larger, and for tuples ttl is the new
  one; a key that has no row gets the new row as it is.
\<close>

definition combineTuples_spec :: "tuplesRow \<Rightarrow> tuplesRow \<Rightarrow> tuplesRow" where
  "combineTuples_spec old new =
     \<lparr>t_count = t_count old + t_count new, t_ttl = t_ttl new,
      t_first = min (t_first old) (t_first new), t_last = max (t_last old) (t_last new)\<rparr>"

definition combineIndividual_spec :: "individualRow \<Rightarrow> individualRow \<Rightarrow> individualRow" where
  "combineIndividual_spec old new =
     \<lparr>i_count = i_count old + i_count new,
      i_first = min (i_first old) (i_first new), i_last = max (i_last old) (i_last new)\<rparr>"

definition upsert_spec :: "('r \<Rightarrow> 'r \<Rightarrow> 'r) \<Rightarrow> 'k \<Rightarrow> 'r \<Rightarrow> ('k \<rightharpoonup> 'r) \<Rightarrow> ('k \<rightharpoonup> 'r)" where
  "upsert_spec combine key new tab =
     tab(key \<mapsto> (case tab key of None \<Rightarrow> new | Some old \<Rightarrow> combine old new))"

text \<open>
  The key under which the store keeps a key of the aggregator (the query reversed), and
  the row that stands for a statistic: its count, the TTL as the \<open>integer\<close> the server
  reads, and both timestamps converted. A statistic whose TTL the server rejects has no
  row; the row of an individual value has no TTL.
\<close>

definition tupleStoreKey :: "(string \<Rightarrow> string) \<Rightarrow> uniqueTuple \<Rightarrow> string \<times> string \<times> string" where
  "tupleStoreKey Reverse k = (Reverse (u_query k), u_qtype k, u_answer k)"

definition individualStoreKey :: "(string \<Rightarrow> string) \<Rightarrow> uniqueIndividual \<Rightarrow> string \<times> string" where
  "individualStoreKey Reverse k =
     (u_which k, if u_which k = ''Q'' then Reverse (u_value k) else u_value k)"

definition rowOfTuple :: "env \<Rightarrow> (real \<Rightarrow> timestamp) \<Rightarrow> queryStat \<Rightarrow> tuplesRow option" where
  "rowOfTuple e ToTS st =
     (case int4in e (ttl st) of
        None \<Rightarrow> None
      | Some tt \<Rightarrow> Some \<lparr>t_count = uint (count st), t_ttl = tt, t_first = ToTS (first st),
                         t_last = ToTS (last' st)\<rparr>)"

definition rowOfIndividual :: "(real \<Rightarrow> timestamp) \<Rightarrow> queryStat \<Rightarrow> individualRow option" where
  "rowOfIndividual ToTS st =
     Some \<lparr>i_count = uint (count st), i_first = ToTS (first st), i_last = ToTS (last' st)\<rparr>"

text \<open>One entry of the snapshot applied to a table by the combine rule.\<close>

definition storeTuple_spec ::
  "env \<Rightarrow> (string \<Rightarrow> string) \<Rightarrow> (real \<Rightarrow> timestamp) \<Rightarrow> uniqueTuple \<times> queryStat
     \<Rightarrow> tuplesTable \<Rightarrow> tuplesTable" where
  "storeTuple_spec e Reverse ToTS q tab =
     (case rowOfTuple e ToTS (snd q) of
        None \<Rightarrow> tab
      | Some new \<Rightarrow> upsert_spec combineTuples_spec (tupleStoreKey Reverse (fst q)) new tab)"

definition storeIndividual_spec ::
  "(string \<Rightarrow> string) \<Rightarrow> (real \<Rightarrow> timestamp) \<Rightarrow> uniqueIndividual \<times> queryStat
     \<Rightarrow> individualTable \<Rightarrow> individualTable" where
  "storeIndividual_spec Reverse ToTS q tab =
     (case rowOfIndividual ToTS (snd q) of
        None \<Rightarrow> tab
      | Some new \<Rightarrow> upsert_spec combineIndividual_spec (individualStoreKey Reverse (fst q)) new tab)"

text \<open>
  A table holds a statistic under a key: no row when the aggregator has no statistic, and
  otherwise the row that stands for the statistic.
\<close>

fun holdsRow :: "('s \<Rightarrow> 'r option) \<Rightarrow> 's option \<Rightarrow> 'r option \<Rightarrow> bool" where
  "holdsRow rowOf None row = (row = None)"
| "holdsRow rowOf (Some st) None = False"
| "holdsRow rowOf (Some st) (Some row) = (rowOf st = Some row)"

text \<open>A delta added to the stored count, if there is one, stays a \<open>bigint\<close>.\<close>

definition countFits :: "int option \<Rightarrow> int \<Rightarrow> bool" where
  "countFits old c = (case old of None \<Rightarrow> True | Some n \<Rightarrow> int8_ok (n + c))"

text \<open>
  An environment for the examples: nothing fails, and the server reads a string of
  decimal digits that fits 32 bits as that number and rejects everything else.
\<close>

fun digits_value :: "int \<Rightarrow> string \<Rightarrow> int option" where
  "digits_value acc [] = Some acc"
| "digits_value acc (c # cs) =
     (if 48 \<le> (of_char c :: nat) \<and> (of_char c :: nat) \<le> 57
      then digits_value (10 * acc + (int (of_char c) - 48)) cs else None)"

definition decimal_int4 :: "string \<Rightarrow> int option" where
  "decimal_int4 s =
     (if s = [] then None
      else (case digits_value 0 s of
              None \<Rightarrow> None
            | Some n \<Rightarrow> if int4_ok n then Some n else None))"

definition plain_env :: env where
  "plain_env = \<lparr>beginTx_fails = False, prepare_fails = (\<lambda>tmpl n. False), commit_fails = False,
                 int4in = decimal_int4\<rparr>"

section \<open>Properties of the aggregator\<close>

lemmas aggregator_defs =
  AddRecord_def NewDNSAggregator_def upsertStat_def MAX_SANE_VALUE_LEN_def stripDecimal_def
  newStat_def hitStat_def GetResult_def aggregateRecords_def statOf_def Let_def

subsection \<open>Lookups through the store\<close>

lemma addr_key_unique:
  "distinct (map snd m) \<Longrightarrow> (k1, a) \<in> set m \<Longrightarrow> (k2, a) \<in> set m \<Longrightarrow> k1 = k2"
  by (induction m) (auto simp: image_iff)

lemma map_of_addr_unique:
  "distinct (map snd m) \<Longrightarrow> map_of m k1 = Some a \<Longrightarrow> map_of m k2 = Some a \<Longrightarrow> k1 = k2"
  by (meson addr_key_unique map_of_SomeD)

lemma map_of_addr_in: "map_of m k = Some a \<Longrightarrow> a \<in> set (map snd m)"
  by (metis map_of_SomeD set_zip_rightD zip_map_fst_snd)

lemma map_of_snoc:
  "map_of (m @ [(k, a)]) k' = (case map_of m k' of Some b \<Rightarrow> Some b | None \<Rightarrow> if k' = k then Some a else None)"
  by (simp add: map_add_def split: option.splits)

lemma statOf_Nil [simp]: "statOf s [] k = None"
  by (simp add: statOf_def)

lemma upsertStat_statOf:
  assumes "distinct (map snd m)" and "\<forall>a \<in> set (map snd m). a < length s"
    and "upsertStat s m k t ttlo = (s1, m1)"
  shows "statOf s1 m1 = (statOf s m)(k := applyHit (t, ttlo) (statOf s m k))"
proof (cases "map_of m k")
  case None
  then have e: "s1 = s @ [newStat t ttlo]" "m1 = m @ [(k, length s)]"
    using assms(3) by (auto simp: upsertStat_def)
  show ?thesis
  proof
    fix k'
    show "statOf s1 m1 k' = ((statOf s m)(k := applyHit (t, ttlo) (statOf s m k))) k'"
    proof (cases "map_of m k'")
      case None': None
      then show ?thesis using None e
        by (auto simp: statOf_def map_of_snoc applyHit_def simp del: map_of_append)
    next
      case (Some b)
      then have "b < length s" using assms(2) map_of_addr_in by fastforce
      moreover have "k' \<noteq> k" using Some None by auto
      ultimately show ?thesis using Some e
        by (auto simp: statOf_def map_of_snoc nth_append simp del: map_of_append)
    qed
  qed
next
  case (Some a)
  then have e: "s1 = s[a := hitStat t ttlo (s ! a)]" "m1 = m"
    using assms(3) by (auto simp: upsertStat_def)
  have a: "a < length s" using assms(2) map_of_addr_in [OF Some] by auto
  show ?thesis
  proof
    fix k'
    show "statOf s1 m1 k' = ((statOf s m)(k := applyHit (t, ttlo) (statOf s m k))) k'"
    proof (cases "map_of m k'")
      case None
      then show ?thesis using Some e by (auto simp: statOf_def)
    next
      case Some': (Some b)
      show ?thesis
      proof (cases "k' = k")
        case True
        then show ?thesis using Some e a by (simp add: statOf_def applyHit_def)
      next
        case False
        then have "b \<noteq> a" using map_of_addr_unique [OF assms(1) Some' ] Some by auto
        then show ?thesis using Some' False e by (simp add: statOf_def)
      qed
    qed
  qed
qed

lemma upsertStat_frame:
  assumes "upsertStat s m k t ttlo = (s1, m1)"
    and "\<forall>a \<in> set (map snd m2). a < length s \<and> a \<notin> set (map snd m)"
  shows "statOf s1 m2 = statOf s m2"
proof
  fix k'
  show "statOf s1 m2 k' = statOf s m2 k'"
  proof (cases "map_of m2 k'")
    case None
    then show ?thesis by (simp add: statOf_def)
  next
    case (Some b)
    then have b: "b < length s" "b \<notin> set (map snd m)"
      using assms(2) map_of_addr_in [OF Some] by auto
    show ?thesis
    proof (cases "map_of m k")
      case None
      then show ?thesis using assms(1) Some b by (auto simp: upsertStat_def statOf_def nth_append)
    next
      case Some': (Some a)
      then have "a \<noteq> b" using b map_of_addr_in [OF Some'] by auto
      then show ?thesis using assms(1) Some Some' by (auto simp: upsertStat_def statOf_def)
    qed
  qed
qed

lemma upsertStat_shape:
  assumes "upsertStat s m k t ttlo = (s1, m1)"
  shows "length s \<le> length s1"
    and "set (map snd m1) \<subseteq> set (map snd m) \<union> {length s}"
    and "set (map snd m) \<subseteq> set (map snd m1)"
    and "distinct (map fst m) \<Longrightarrow> distinct (map fst m1)"
    and "length s < length s1 \<or> m1 = m"
  using assms
  by (auto simp: upsertStat_def map_of_eq_None_iff split: option.splits)

lemma upsertStat_distinct_addrs:
  assumes "upsertStat s m k t ttlo = (s1, m1)"
    and "\<forall>a \<in> set (map snd m). a < length s" and "distinct (map snd m)"
  shows "distinct (map snd m1)"
  using assms
  by (fastforce simp: upsertStat_def split: option.splits)

subsection \<open>\<open>AddRecord\<close> and the updates of a key\<close>

lemma upsertStat_allocated:
  assumes "upsertStat s m k t ttlo = (s1, m1)" and "\<forall>a \<in> set (map snd m). a < length s"
  shows "\<forall>a \<in> set (map snd m1). a < length s1"
  using assms by (fastforce simp: upsertStat_def less_Suc_eq split: option.splits)

lemma upsertStat_fresh:
  assumes "upsertStat s m k t ttlo = (s1, m1)" and "a \<in> set (map snd m1)" and "a < length s"
    and "\<forall>a \<in> set (map snd m). a < length s"
  shows "a \<in> set (map snd m)"
  using assms by (auto simp: upsertStat_def split: option.splits)

lemma upsert_queries:
  assumes wf: "wellFormed s d" and u: "upsertStat s (queries d) k t ttlo = (s1, qs)"
  shows "wellFormed s1 (d\<lparr>queries := qs\<rparr>)"
    and "statOf s1 qs = (statOf s (queries d))(k := applyHit (t, ttlo) (statOf s (queries d) k))"
    and "statOf s1 (vals d) = statOf s (vals d)"
proof -
  have dq: "distinct (map snd (queries d))" and dv: "distinct (map snd (vals d))"
    and dj: "set (map snd (queries d)) \<inter> set (map snd (vals d)) = {}"
    and aq: "\<forall>a \<in> set (map snd (queries d)). a < length s"
    and av: "\<forall>a \<in> set (map snd (vals d)). a < length s"
    and kq: "distinct (map fst (queries d))" and kv: "distinct (map fst (vals d))"
    using wf by (auto simp: wellFormed_def heldAddrs_def allocated_def)
  have len: "length s \<le> length s1" using upsertStat_shape(1) [OF u] .
  have "set (map snd qs) \<inter> set (map snd (vals d)) = {}"
  proof -
    have False if 1: "a \<in> set (map snd qs)" and 2: "a \<in> set (map snd (vals d))" for a
    proof -
      from 2 av have "a < length s" by blast
      from upsertStat_fresh [OF u 1 this aq] have "a \<in> set (map snd (queries d))" .
      with 2 dj show False by blast
    qed
    then show ?thesis by blast
  qed
  moreover have "\<forall>a \<in> set (map snd (vals d)). a < length s1" using av len by auto
  ultimately show "wellFormed s1 (d\<lparr>queries := qs\<rparr>)"
    using upsertStat_shape(4) [OF u kq] kv dv upsertStat_distinct_addrs [OF u aq dq]
      upsertStat_allocated [OF u aq]
    by (auto simp: wellFormed_def heldAddrs_def allocated_def)
  show "statOf s1 qs = (statOf s (queries d))(k := applyHit (t, ttlo) (statOf s (queries d) k))"
    using upsertStat_statOf [OF dq aq u] .
  show "statOf s1 (vals d) = statOf s (vals d)"
    using upsertStat_frame [OF u, of "vals d"] av dj by auto
qed

lemma upsert_vals:
  assumes wf: "wellFormed s d" and u: "upsertStat s (vals d) k t ttlo = (s1, vs)"
  shows "wellFormed s1 (d\<lparr>vals := vs\<rparr>)"
    and "statOf s1 vs = (statOf s (vals d))(k := applyHit (t, ttlo) (statOf s (vals d) k))"
    and "statOf s1 (queries d) = statOf s (queries d)"
proof -
  have dq: "distinct (map snd (queries d))" and dv: "distinct (map snd (vals d))"
    and dj: "set (map snd (queries d)) \<inter> set (map snd (vals d)) = {}"
    and aq: "\<forall>a \<in> set (map snd (queries d)). a < length s"
    and av: "\<forall>a \<in> set (map snd (vals d)). a < length s"
    and kq: "distinct (map fst (queries d))" and kv: "distinct (map fst (vals d))"
    using wf by (auto simp: wellFormed_def heldAddrs_def allocated_def)
  have len: "length s \<le> length s1" using upsertStat_shape(1) [OF u] .
  have "set (map snd (queries d)) \<inter> set (map snd vs) = {}"
  proof -
    have False if 1: "a \<in> set (map snd vs)" and 2: "a \<in> set (map snd (queries d))" for a
    proof -
      from 2 aq have "a < length s" by blast
      from upsertStat_fresh [OF u 1 this av] have "a \<in> set (map snd (vals d))" .
      with 2 dj show False by blast
    qed
    then show ?thesis by blast
  qed
  moreover have "\<forall>a \<in> set (map snd (queries d)). a < length s1" using aq len by auto
  ultimately show "wellFormed s1 (d\<lparr>vals := vs\<rparr>)"
    using upsertStat_shape(4) [OF u kv] kq dq upsertStat_distinct_addrs [OF u av dv]
      upsertStat_allocated [OF u av]
    by (auto simp: wellFormed_def heldAddrs_def allocated_def)
  show "statOf s1 vs = (statOf s (vals d))(k := applyHit (t, ttlo) (statOf s (vals d) k))"
    using upsertStat_statOf [OF dv av u] .
  show "statOf s1 (queries d) = statOf s (queries d)"
    using upsertStat_frame [OF u, of "queries d"] aq dj by auto
qed

lemma wellFormed_counters [simp]:
  "wellFormed s (d\<lparr>skippedRecords := n\<rparr>) = wellFormed s d"
  "wellFormed s (d\<lparr>totalRecords := n\<rparr>) = wellFormed s d"
  by (simp_all add: wellFormed_def heldAddrs_def allocated_def)

lemma slotsFrom_Nil [simp]: "slotsFrom [] tt = []" "slotsFrom as [] = []"
  by (simp_all add: slotsFrom_def)

lemma slotsFrom_long:
  "length a > MAX_SANE_VALUE_LEN \<Longrightarrow> slotsFrom (a # as) tt = []"
  by (simp add: slotsFrom_def)

lemma slotsFrom_sentinel:
  "\<not> length a > MAX_SANE_VALUE_LEN \<Longrightarrow> a = ''-'' \<Longrightarrow> slotsFrom (a # as) tt = slotsFrom as (tl tt)"
  by (cases tt) (simp_all add: slotsFrom_def)

lemma slotsFrom_Cons:
  "\<not> length a > MAX_SANE_VALUE_LEN \<Longrightarrow> a \<noteq> ''-'' \<Longrightarrow>
   slotsFrom (a # as) (t # tt) = (a, stripDecimal t) # slotsFrom as tt"
  by (simp add: slotsFrom_def)

lemma uniqueTuple_eq:
  "(k = \<lparr>u_query = q, u_answer = a, u_qtype = ty\<rparr>) \<longleftrightarrow> u_query k = q \<and> u_answer k = a \<and> u_qtype k = ty"
  by (cases k) auto

lemma uniqueIndividual_eq:
  "(k = \<lparr>u_value = v, u_which = w\<rparr>) \<longleftrightarrow> u_value k = v \<and> u_which k = w"
  by (cases k) auto

lemma answersLoop_refines:
  assumes "wellFormed s d" and "answersLoop r idx as s d = Inr (s1, d1)"
  shows "wellFormed s1 d1
    \<and> (\<forall>k. statOf s1 (queries d1) k =
            fold applyHit (tupleSlotHits r k (slotsFrom as (drop idx (ttls r)))) (statOf s (queries d) k))
    \<and> (\<forall>k. statOf s1 (vals d1) k =
            fold applyHit (answerSlotHits r k (slotsFrom as (drop idx (ttls r)))) (statOf s (vals d) k))"
  using assms
proof (induction as arbitrary: idx s d)
  case Nil
  then show ?case by (simp add: tupleSlotHits_def answerSlotHits_def hitsOf_def)
next
  case (Cons a as)
  show ?case
  proof (cases "length a > MAX_SANE_VALUE_LEN")
    case True
    then show ?thesis using Cons.prems
      by (auto simp: slotsFrom_long tupleSlotHits_def answerSlotHits_def hitsOf_def)
  next
    case short: False
    show ?thesis
    proof (cases "a = ''-''")
      case True
      have "slotsFrom (a # as) (drop idx (ttls r)) = slotsFrom as (drop (Suc idx) (ttls r))"
        using short True by (simp add: slotsFrom_sentinel drop_Suc tl_drop)
      moreover have "answersLoop r (Suc idx) as s d = Inr (s1, d1)"
        using Cons.prems(2) short True by simp
      ultimately show ?thesis using Cons.IH [OF Cons.prems(1), of "Suc idx"] by simp
    next
      case False
      have idx: "idx < length (ttls r)"
        using Cons.prems(2) short False by (auto split: if_splits)
      let ?ttl = "stripDecimal (ttls r ! idx)"
      let ?uq = "\<lparr>u_query = query r, u_answer = a, u_qtype = qtype r\<rparr>"
      let ?av = "\<lparr>u_value = a, u_which = ''A''\<rparr>"
      obtain s2 qs where u1: "upsertStat s (queries d) ?uq (ts r) (Some ?ttl) = (s2, qs)"
        by (cases "upsertStat s (queries d) ?uq (ts r) (Some ?ttl)")
      obtain s3 vs where u2: "upsertStat s2 (vals d) ?av (ts r) (Some ?ttl) = (s3, vs)"
        by (cases "upsertStat s2 (vals d) ?av (ts r) (Some ?ttl)")
      let ?d2 = "d\<lparr>queries := qs\<rparr>"
      let ?d3 = "d\<lparr>queries := qs, vals := vs\<rparr>"
      have rest: "answersLoop r (Suc idx) as s3 ?d3 = Inr (s1, d1)"
        using Cons.prems(2) short False idx u1 u2 by (simp add: Let_def)
      note q = upsert_queries [OF Cons.prems(1) u1]
      have u2': "upsertStat s2 (vals ?d2) ?av (ts r) (Some ?ttl) = (s3, vs)" using u2 by simp
      note v = upsert_vals [OF q(1) u2']
      have wf3: "wellFormed s3 ?d3" using v(1) by simp
      have sl: "slotsFrom (a # as) (drop idx (ttls r)) = (a, ?ttl) # slotsFrom as (drop (Suc idx) (ttls r))"
        using short False idx by (simp add: slotsFrom_Cons Cons_nth_drop_Suc [symmetric])
      have Q: "statOf s3 (queries ?d3) = (statOf s (queries d))(?uq := applyHit (ts r, Some ?ttl) (statOf s (queries d) ?uq))"
        using q(2) v(3) by simp
      have V: "statOf s3 (vals ?d3) = (statOf s (vals d))(?av := applyHit (ts r, Some ?ttl) (statOf s (vals d) ?av))"
        using q(3) v(2) by simp
      note ih = Cons.IH [OF wf3 rest]
      note ih1 = ih [THEN conjunct1]
      note ih2 = ih [THEN conjunct2, THEN conjunct1, rule_format]
      note ih3 = ih [THEN conjunct2, THEN conjunct2, rule_format]
      have A: "statOf s1 (queries d1) k =
            fold applyHit (tupleSlotHits r k (slotsFrom (a # as) (drop idx (ttls r)))) (statOf s (queries d) k)" for k
      proof (cases "k = ?uq")
        case True
        then show ?thesis unfolding ih2 Q sl by (simp add: tupleSlotHits_def hitsOf_def)
      next
        case False
        then have "\<not> (query r = u_query k \<and> qtype r = u_qtype k \<and> a = u_answer k)"
          by (auto simp: uniqueTuple_eq)
        then show ?thesis using False unfolding ih2 Q sl
          by (auto simp: tupleSlotHits_def hitsOf_def)
      qed
      have B: "statOf s1 (vals d1) k =
            fold applyHit (answerSlotHits r k (slotsFrom (a # as) (drop idx (ttls r)))) (statOf s (vals d) k)" for k
      proof (cases "k = ?av")
        case True
        then show ?thesis unfolding ih3 V sl by (simp add: answerSlotHits_def hitsOf_def)
      next
        case False
        then have "\<not> (u_which k = ''A'' \<and> a = u_value k)"
          by (auto simp: uniqueIndividual_eq)
        then show ?thesis using False unfolding ih3 V sl
          by (auto simp: answerSlotHits_def hitsOf_def)
      qed
      show ?thesis by (intro conjI allI) (rule ih1 A B)+
    qed
  qed
qed

lemma wellFormed_empty: "wellFormed [] NewDNSAggregator"
  by (simp add: wellFormed_def heldAddrs_def allocated_def NewDNSAggregator_def)

lemma AddRecord_refines:
  assumes wf: "wellFormed s d" and ar: "AddRecord s d r = Inr (s1, d1)"
  shows "wellFormed s1 d1
    \<and> (\<forall>k. statOf s1 (queries d1) k = fold applyHit (tupleHits r k) (statOf s (queries d) k))
    \<and> (\<forall>k. statOf s1 (vals d1) k = fold applyHit (individualHits r k) (statOf s (vals d) k))"
proof (cases "length (query r) > MAX_SANE_VALUE_LEN")
  case True
  then show ?thesis using wf ar
    by (auto simp: AddRecord_def tupleHits_def individualHits_def)
next
  case False
  let ?qv = "\<lparr>u_value = query r, u_which = ''Q''\<rparr>"
  let ?d0 = "d\<lparr>totalRecords := totalRecords d + 1\<rparr>"
  obtain s0 vs where u: "upsertStat s (vals ?d0) ?qv (ts r) None = (s0, vs)"
    by (cases "upsertStat s (vals ?d0) ?qv (ts r) None")
  have loop: "answersLoop r 0 (answers r) s0 (?d0\<lparr>vals := vs\<rparr>) = Inr (s1, d1)"
    using ar False u by (simp add: AddRecord_def Let_def)
  have wf0: "wellFormed s ?d0" using wf by simp
  note v = upsert_vals [OF wf0 u]
  note l = answersLoop_refines [OF v(1) loop]
  note l1 = l [THEN conjunct1]
  note l2 = l [THEN conjunct2, THEN conjunct1, rule_format]
  note l3 = l [THEN conjunct2, THEN conjunct2, rule_format]
  have A: "statOf s1 (queries d1) k = fold applyHit (tupleHits r k) (statOf s (queries d) k)" for k
    using l2 [of k] v(3) False by (simp add: tupleHits_def)
  have B: "statOf s1 (vals d1) k = fold applyHit (individualHits r k) (statOf s (vals d) k)" for k
    using l3 [of k] v(2) False by (simp add: individualHits_def)
  show ?thesis by (intro conjI allI) (rule l1 A B)+
qed

lemma AddRecords_refines:
  assumes "wellFormed s d" and "AddRecords s d rs = Inr (s1, d1)"
  shows "wellFormed s1 d1
    \<and> (\<forall>k. statOf s1 (queries d1) k = fold applyHit (tupleUpdates rs k) (statOf s (queries d) k))
    \<and> (\<forall>k. statOf s1 (vals d1) k = fold applyHit (individualUpdates rs k) (statOf s (vals d) k))"
  using assms
proof (induction rs arbitrary: s d)
  case Nil
  then show ?case by (simp add: tupleUpdates_def individualUpdates_def)
next
  case (Cons r rs)
  from Cons.prems(2) obtain s2 d2 where
    one: "AddRecord s d r = Inr (s2, d2)" and rest: "AddRecords s2 d2 rs = Inr (s1, d1)"
    by (auto split: sum.splits)
  note a = AddRecord_refines [OF Cons.prems(1) one]
  note a1 = a [THEN conjunct1]
  note a2 = a [THEN conjunct2, THEN conjunct1, rule_format]
  note a3 = a [THEN conjunct2, THEN conjunct2, rule_format]
  note ih = Cons.IH [OF a1 rest]
  note ih1 = ih [THEN conjunct1]
  note ih2 = ih [THEN conjunct2, THEN conjunct1, rule_format]
  note ih3 = ih [THEN conjunct2, THEN conjunct2, rule_format]
  have A: "statOf s1 (queries d1) k = fold applyHit (tupleUpdates (r # rs) k) (statOf s (queries d) k)" for k
    unfolding ih2 a2 by (simp add: tupleUpdates_def)
  have B: "statOf s1 (vals d1) k = fold applyHit (individualUpdates (r # rs) k) (statOf s (vals d) k)" for k
    unfolding ih3 a3 by (simp add: individualUpdates_def)
  show ?case by (intro conjI allI) (rule ih1 A B)+
qed

lemma applyHit_fields:
  "\<exists>st. applyHit h old = Some st
     \<and> first st = (case old of None \<Rightarrow> fst h | Some x \<Rightarrow> first x)
     \<and> last' st = fst h
     \<and> count st = (case old of None \<Rightarrow> 0 | Some x \<Rightarrow> count x) + 1
     \<and> (\<forall>t. snd h = Some t \<longrightarrow> ttl st = t)"
  by (cases old; cases "snd h") (auto simp: applyHit_def newStat_def hitStat_def)

lemma fold_applyHit_fields:
  "hs \<noteq> [] \<Longrightarrow>
   \<exists>st. fold applyHit hs old = Some st
     \<and> first st = (case old of None \<Rightarrow> fst (hd hs) | Some x \<Rightarrow> first x)
     \<and> last' st = fst (last hs)
     \<and> count st = (case old of None \<Rightarrow> 0 | Some x \<Rightarrow> count x) + of_nat (length hs)
     \<and> (\<forall>t. snd (last hs) = Some t \<longrightarrow> ttl st = t)"
proof (induction hs arbitrary: old)
  case Nil
  then show ?case by simp
next
  case (Cons h hs)
  obtain y where y: "applyHit h old = Some y"
    "first y = (case old of None \<Rightarrow> fst h | Some x \<Rightarrow> first x)" "last' y = fst h"
    "count y = (case old of None \<Rightarrow> 0 | Some x \<Rightarrow> count x) + 1"
    "\<forall>t. snd h = Some t \<longrightarrow> ttl y = t"
    using applyHit_fields [of h old] by blast
  show ?case
  proof (cases "hs = []")
    case True
    then show ?thesis using y by (simp split: option.splits)
  next
    case False
    from Cons.IH [OF False, of "Some y"] obtain st where
      "fold applyHit hs (Some y) = Some st" "first st = first y" "last' st = fst (last hs)"
      "count st = count y + of_nat (length hs)" "\<forall>t. snd (last hs) = Some t \<longrightarrow> ttl st = t"
      by auto
    then show ?thesis using y False
      by (simp add: add.assoc add.commute [of 1] split: option.splits)
  qed
qed

lemmas update_defs =
  tupleUpdates_def individualUpdates_def tupleHits_def individualHits_def tupleSlotHits_def
  answerSlotHits_def hitsOf_def slotsFrom_def MAX_SANE_VALUE_LEN_def stripDecimal_def

subsection \<open>Arrival order and the first and last timestamps\<close>

text \<open>
  C1, the claim at its own example: a key fed a record with timestamp 10 and then one with
  timestamp 5 does not end with first = 5 and last = 10. Every statistic of the key ends
  with first = 10 and last = 5: an update through the pointer leaves \<open>first\<close> alone and
  stores \<open>r.ts\<close> in \<open>last\<close>.
\<close>

theorem AddRecord_order_counterexample:
  "AddRecords [] NewDNSAggregator
     [\<lparr>ts = 10, query = ''a.example'', qtype = ''A'', answers = [''1.2.3.4''], ttls = [''60'']\<rparr>,
      \<lparr>ts = 5, query = ''a.example'', qtype = ''A'', answers = [''1.2.3.4''], ttls = [''60'']\<rparr>]
   = Inr ([\<lparr>count = 2, first = 10, last' = 5, ttl = []\<rparr>,
           \<lparr>count = 2, first = 10, last' = 5, ttl = ''60''\<rparr>,
           \<lparr>count = 2, first = 10, last' = 5, ttl = ''60''\<rparr>],
          \<lparr>queries = [(\<lparr>u_query = ''a.example'', u_answer = ''1.2.3.4'', u_qtype = ''A''\<rparr>, 1)],
           vals = [(\<lparr>u_value = ''a.example'', u_which = ''Q''\<rparr>, 0),
                   (\<lparr>u_value = ''1.2.3.4'', u_which = ''A''\<rparr>, 2)],
           totalRecords = 2, skippedRecords = 0\<rparr>)"
  by (simp add: aggregator_defs)

text \<open>
  C1 as the code has it: after a list of records has been fed, a key that at least one
  of them has updated has as first the value it had before, or the timestamp of the
  first update if the key is new, and as last the timestamp of the last update, whatever
  the order of the timestamps; the rule is the same for tuple keys and individual keys.
\<close>

theorem AddRecords_first_last:
  assumes "wellFormed s d" and "AddRecords s d rs = Inr (s1, d1)"
  shows "(tupleUpdates rs k \<noteq> [] \<longrightarrow>
           (\<exists>st. statOf s1 (queries d1) k = Some st
              \<and> first st = (case statOf s (queries d) k of
                               None \<Rightarrow> fst (hd (tupleUpdates rs k)) | Some x \<Rightarrow> first x)
              \<and> last' st = fst (last (tupleUpdates rs k))))
       \<and> (individualUpdates rs v \<noteq> [] \<longrightarrow>
           (\<exists>st. statOf s1 (vals d1) v = Some st
              \<and> first st = (case statOf s (vals d) v of
                               None \<Rightarrow> fst (hd (individualUpdates rs v)) | Some x \<Rightarrow> first x)
              \<and> last' st = fst (last (individualUpdates rs v))))"
proof -
  note r = AddRecords_refines [OF assms]
  note r2 = r [THEN conjunct2, THEN conjunct1, rule_format]
  note r3 = r [THEN conjunct2, THEN conjunct2, rule_format]
  show ?thesis
    using fold_applyHit_fields [of "tupleUpdates rs k" "statOf s (queries d) k"]
      fold_applyHit_fields [of "individualUpdates rs v" "statOf s (vals d) v"]
    unfolding r2 r3 by blast
qed

text \<open>The theorem at the example of the claim: timestamp 10, then timestamp 5.\<close>

theorem AddRecords_first_last_witness:
  "\<exists>s1 d1 st st'.
     AddRecords [] NewDNSAggregator
       [\<lparr>ts = 10, query = ''a.example'', qtype = ''A'', answers = [''1.2.3.4''], ttls = [''60'']\<rparr>,
        \<lparr>ts = 5, query = ''a.example'', qtype = ''A'', answers = [''1.2.3.4''], ttls = [''60'']\<rparr>]
       = Inr (s1, d1)
     \<and> statOf s1 (queries d1) \<lparr>u_query = ''a.example'', u_answer = ''1.2.3.4'', u_qtype = ''A''\<rparr>
         = Some st \<and> first st = 10 \<and> last' st = 5
     \<and> statOf s1 (vals d1) \<lparr>u_value = ''a.example'', u_which = ''Q''\<rparr> = Some st'
     \<and> first st' = 10 \<and> last' st' = 5"
proof -
  let ?rs = "[\<lparr>ts = 10, query = ''a.example'', qtype = ''A'', answers = [''1.2.3.4''], ttls = [''60'']\<rparr>,
        \<lparr>ts = 5, query = ''a.example'', qtype = ''A'', answers = [''1.2.3.4''], ttls = [''60'']\<rparr>]"
  let ?k = "\<lparr>u_query = ''a.example'', u_answer = ''1.2.3.4'', u_qtype = ''A''\<rparr>"
  let ?v = "\<lparr>u_value = ''a.example'', u_which = ''Q''\<rparr>"
  obtain s1 d1 where run: "AddRecords [] NewDNSAggregator ?rs = Inr (s1, d1)"
    by (simp add: aggregator_defs)
  have tu: "tupleUpdates ?rs ?k = [(10, Some ''60''), (5, Some ''60'')]"
    by (simp add: update_defs)
  have iu: "individualUpdates ?rs ?v = [(10, None), (5, None)]"
    by (simp add: update_defs)
  have old: "statOf [] (queries NewDNSAggregator) ?k = None" "statOf [] (vals NewDNSAggregator) ?v = None"
    by (simp_all add: NewDNSAggregator_def)
  from AddRecords_first_last [OF wellFormed_empty run, of ?k ?v]
  obtain st st' where
    "statOf s1 (queries d1) ?k = Some st" "first st = 10" "last' st = 5"
    "statOf s1 (vals d1) ?v = Some st'" "first st' = 10" "last' st' = 5"
    unfolding tu iu old by auto
  with run show ?thesis by blast
qed

subsection \<open>The TTL of a statistic\<close>

lemma take_Index:
  "(if Index xs c = - 1 then xs else take (nat (Index xs c)) xs) = takeWhile (\<lambda>x. x \<noteq> c) xs
   \<and> - 1 \<le> Index xs c"
  by (induction xs) (auto simp: Let_def nat_add_distrib)

text \<open>
  C6: normalization maps the sentinel to \<open>0\<close> and cuts any other value at its first dot;
  and after a list of records has been fed, the ttl of a tuple key, and of the individual
  key of an answer, that at least one record has updated is the normalized TTL of the last
  update applied to the key.
\<close>

theorem ttl_is_last_update:
  "stripDecimal ''-'' = ''0''
   \<and> (val \<noteq> ''-'' \<longrightarrow> stripDecimal val = takeWhile (\<lambda>c. c \<noteq> CHR ''.'') val)
   \<and> (wellFormed s d \<and> AddRecords s d rs = Inr (s1, d1) \<and> tupleUpdates rs k \<noteq> [] \<longrightarrow>
        (\<exists>st. statOf s1 (queries d1) k = Some st
           \<and> snd (last (tupleUpdates rs k)) = Some (ttl st)))
   \<and> (wellFormed s d \<and> AddRecords s d rs = Inr (s1, d1) \<and> u_which v = ''A''
        \<and> individualUpdates rs v \<noteq> [] \<longrightarrow>
        (\<exists>st. statOf s1 (vals d1) v = Some st
           \<and> snd (last (individualUpdates rs v)) = Some (ttl st)))"
proof (intro conjI impI)
  show "stripDecimal ''-'' = ''0''" by (simp add: stripDecimal_def)
next
  assume "val \<noteq> ''-''"
  then show "stripDecimal val = takeWhile (\<lambda>c. c \<noteq> CHR ''.'') val"
    using take_Index [of val "CHR ''.''"] by (simp add: stripDecimal_def Let_def)
next
  assume a: "wellFormed s d \<and> AddRecords s d rs = Inr (s1, d1) \<and> tupleUpdates rs k \<noteq> []"
  note r = AddRecords_refines [of s d rs s1 d1]
  have eq: "statOf s1 (queries d1) k = fold applyHit (tupleUpdates rs k) (statOf s (queries d) k)"
    using r a by blast
  have "last (tupleUpdates rs k) \<in> set (tupleUpdates rs k)" using a by simp
  then obtain t where t: "snd (last (tupleUpdates rs k)) = Some t"
    by (auto simp: tupleUpdates_def tupleHits_def tupleSlotHits_def hitsOf_def split: if_splits)
  show "\<exists>st. statOf s1 (queries d1) k = Some st \<and> snd (last (tupleUpdates rs k)) = Some (ttl st)"
    using fold_applyHit_fields [of "tupleUpdates rs k" "statOf s (queries d) k"] a t
    unfolding eq by auto
next
  assume a: "wellFormed s d \<and> AddRecords s d rs = Inr (s1, d1) \<and> u_which v = ''A''
        \<and> individualUpdates rs v \<noteq> []"
  note r = AddRecords_refines [of s d rs s1 d1]
  have eq: "statOf s1 (vals d1) v = fold applyHit (individualUpdates rs v) (statOf s (vals d) v)"
    using r a by blast
  have "last (individualUpdates rs v) \<in> set (individualUpdates rs v)" using a by simp
  then obtain t where t: "snd (last (individualUpdates rs v)) = Some t"
    using a
    by (auto simp: individualUpdates_def individualHits_def answerSlotHits_def hitsOf_def
          uniqueIndividual_eq split: if_splits)
  show "\<exists>st. statOf s1 (vals d1) v = Some st \<and> snd (last (individualUpdates rs v)) = Some (ttl st)"
    using fold_applyHit_fields [of "individualUpdates rs v" "statOf s (vals d) v"] a t
    unfolding eq by auto
qed

text \<open>The theorem at the example of the claim: TTL \<open>300.0\<close>, then TTL \<open>60\<close>.\<close>

theorem ttl_is_last_update_witness:
  "stripDecimal ''300.0'' = ''300''
   \<and> (\<exists>s1 d1 st st'.
        AddRecords [] NewDNSAggregator
          [\<lparr>ts = 1, query = ''a.example'', qtype = ''A'', answers = [''1.2.3.4''],
            ttls = [''300.0'']\<rparr>,
           \<lparr>ts = 2, query = ''a.example'', qtype = ''A'', answers = [''1.2.3.4''],
            ttls = [''60'']\<rparr>] = Inr (s1, d1)
        \<and> statOf s1 (queries d1)
              \<lparr>u_query = ''a.example'', u_answer = ''1.2.3.4'', u_qtype = ''A''\<rparr> = Some st
        \<and> ttl st = ''60''
        \<and> statOf s1 (vals d1) \<lparr>u_value = ''1.2.3.4'', u_which = ''A''\<rparr> = Some st'
        \<and> ttl st' = ''60'')"
proof -
  let ?rs = "[\<lparr>ts = 1, query = ''a.example'', qtype = ''A'', answers = [''1.2.3.4''],
            ttls = [''300.0'']\<rparr>,
           \<lparr>ts = 2, query = ''a.example'', qtype = ''A'', answers = [''1.2.3.4''],
            ttls = [''60'']\<rparr>]"
  let ?k = "\<lparr>u_query = ''a.example'', u_answer = ''1.2.3.4'', u_qtype = ''A''\<rparr>"
  let ?v = "\<lparr>u_value = ''1.2.3.4'', u_which = ''A''\<rparr>"
  obtain s1 d1 where run: "AddRecords [] NewDNSAggregator ?rs = Inr (s1, d1)"
    by (simp add: aggregator_defs)
  have tu: "tupleUpdates ?rs ?k = [(1, Some ''300''), (2, Some ''60'')]"
    by (simp add: update_defs)
  have iu: "individualUpdates ?rs ?v = [(1, Some ''300''), (2, Some ''60'')]"
    by (simp add: update_defs)
  note t = ttl_is_last_update [of "''300.0''" "[]" NewDNSAggregator ?rs s1 d1 ?k ?v]
  have "stripDecimal ''300.0'' = takeWhile (\<lambda>c. c \<noteq> CHR ''.'') ''300.0''"
    using t by simp
  then have c0: "stripDecimal ''300.0'' = ''300''" by simp
  have "\<exists>st. statOf s1 (queries d1) ?k = Some st \<and> snd (last (tupleUpdates ?rs ?k)) = Some (ttl st)"
    using t wellFormed_empty run tu by simp
  then obtain st where c1: "statOf s1 (queries d1) ?k = Some st" "ttl st = ''60''"
    unfolding tu by auto
  have "\<exists>st. statOf s1 (vals d1) ?v = Some st \<and> snd (last (individualUpdates ?rs ?v)) = Some (ttl st)"
    using t wellFormed_empty run iu by simp
  then obtain st' where c2: "statOf s1 (vals d1) ?v = Some st'" "ttl st' = ''60''"
    unfolding iu by auto
  show ?thesis using c0 run c1 c2 by blast
qed

subsection \<open>The end-to-end scenario\<close>

text \<open>
  C3, the claim at its scenario: the snapshot does not hold the entry the claim gives for
  the query value, with count 3, first 100 and last 200.
\<close>

theorem scenario_counterexample:
  "aggregateRecords
     [\<lparr>ts = 100, query = ''www.example.com'', qtype = ''A'', answers = [''1.1.1.1''],
       ttls = [''300'']\<rparr>,
      \<lparr>ts = 200, query = ''www.example.com'', qtype = ''A'', answers = [''1.1.1.1''],
       ttls = [''60'']\<rparr>,
      \<lparr>ts = 150, query = ''www.example.com'', qtype = ''A'', answers = [''-''],
       ttls = [''0'']\<rparr>]
   = Inr \<lparr>TotalRecords = 3, SkippedRecords = 0,
          Tuples = [(\<lparr>u_query = ''www.example.com'', u_answer = ''1.1.1.1'', u_qtype = ''A''\<rparr>,
                     \<lparr>count = 2, first = 100, last' = 200, ttl = ''60''\<rparr>)],
          TuplesLen = 1,
          Individual = [(\<lparr>u_value = ''www.example.com'', u_which = ''Q''\<rparr>,
                         \<lparr>count = 3, first = 100, last' = 150, ttl = []\<rparr>),
                        (\<lparr>u_value = ''1.1.1.1'', u_which = ''A''\<rparr>,
                         \<lparr>count = 2, first = 100, last' = 200, ttl = ''60''\<rparr>)],
          IndividualLen = 2\<rparr>"
  by (simp add: aggregator_defs)

text \<open>
  C3 as the code has it: the snapshot of the scenario has total 3 and skipped 0, the one
  tuple entry with count 2, first 100, last 200 and ttl \<open>60\<close>, and exactly two individual
  entries: the answer with count 2, first 100 and last 200, and the query with count 3,
  first 100 and last 150, the timestamp of the record fed last.
\<close>

theorem scenario_snapshot:
  "\<exists>res. aggregateRecords
       [\<lparr>ts = 100, query = ''www.example.com'', qtype = ''A'', answers = [''1.1.1.1''],
         ttls = [''300'']\<rparr>,
        \<lparr>ts = 200, query = ''www.example.com'', qtype = ''A'', answers = [''1.1.1.1''],
         ttls = [''60'']\<rparr>,
        \<lparr>ts = 150, query = ''www.example.com'', qtype = ''A'', answers = [''-''],
         ttls = [''0'']\<rparr>] = Inr res
     \<and> TotalRecords res = 3 \<and> SkippedRecords res = 0
     \<and> set (Tuples res) =
         {(\<lparr>u_query = ''www.example.com'', u_answer = ''1.1.1.1'', u_qtype = ''A''\<rparr>,
           \<lparr>count = 2, first = 100, last' = 200, ttl = ''60''\<rparr>)}
     \<and> TuplesLen res = 1
     \<and> set (Individual res) =
         {(\<lparr>u_value = ''www.example.com'', u_which = ''Q''\<rparr>,
           \<lparr>count = 3, first = 100, last' = 150, ttl = []\<rparr>),
          (\<lparr>u_value = ''1.1.1.1'', u_which = ''A''\<rparr>,
           \<lparr>count = 2, first = 100, last' = 200, ttl = ''60''\<rparr>)}
     \<and> IndividualLen res = 2"
  by (simp add: aggregator_defs)

subsection \<open>Over-long values\<close>

text \<open>An over-long query: nothing but the skip counter changes.\<close>

lemma AddRecord_long_query:
  "length (query r) > MAX_SANE_VALUE_LEN \<Longrightarrow>
   AddRecord s d r = Inr (s, d\<lparr>skippedRecords := skippedRecords d + 1\<rparr>)"
  by (simp add: AddRecord_def)

text \<open>
  C5 at a record whose second answer has 1001 bytes: the record is counted as skipped,
  and it is counted in \<open>totalRecords\<close> as well, and the statistics of its query, of its
  first answer and of the tuple of the two have been created.
\<close>

theorem AddRecord_long_answer_keeps_updates:
  "AddRecord [] NewDNSAggregator
     \<lparr>ts = 1, query = ''a.example'', qtype = ''A'',
      answers = [''1.2.3.4'', replicate 1001 CHR ''x''], ttls = [''60'', ''60'']\<rparr>
   = Inr ([\<lparr>count = 1, first = 1, last' = 1, ttl = []\<rparr>,
           \<lparr>count = 1, first = 1, last' = 1, ttl = ''60''\<rparr>,
           \<lparr>count = 1, first = 1, last' = 1, ttl = ''60''\<rparr>],
          \<lparr>queries = [(\<lparr>u_query = ''a.example'', u_answer = ''1.2.3.4'', u_qtype = ''A''\<rparr>, 1)],
           vals = [(\<lparr>u_value = ''a.example'', u_which = ''Q''\<rparr>, 0),
                   (\<lparr>u_value = ''1.2.3.4'', u_which = ''A''\<rparr>, 2)],
           totalRecords = 1, skippedRecords = 1\<rparr>)"
  by (simp add: aggregator_defs)

subsection \<open>First is not after last\<close>

lemma upsertStat_pres:
  assumes u: "upsertStat s m k t ttlo = (s1, m1)"
    and H: "\<forall>a \<in> H. a < length s \<and> Q (s ! a)" and sub: "set (map snd m) \<subseteq> H"
    and hit: "\<And>x. Q x \<Longrightarrow> Q (hitStat t ttlo x)" and new: "Q (newStat t ttlo)"
  shows "\<forall>a \<in> H \<union> set (map snd m1). a < length s1 \<and> Q (s1 ! a)"
proof (cases "map_of m k")
  case None
  then have e: "s1 = s @ [newStat t ttlo]" "m1 = m @ [(k, length s)]"
    using u by (auto simp: upsertStat_def)
  show ?thesis
  proof
    fix a assume "a \<in> H \<union> set (map snd m1)"
    then have "a \<in> H \<or> a = length s" using e sub by auto
    then show "a < length s1 \<and> Q (s1 ! a)"
      using H new e by (auto simp: nth_append)
  qed
next
  case (Some b)
  then have e: "s1 = s[b := hitStat t ttlo (s ! b)]" "m1 = m"
    using u by (auto simp: upsertStat_def)
  have b: "b \<in> H" using map_of_addr_in [OF Some] sub by auto
  show ?thesis
  proof
    fix a assume "a \<in> H \<union> set (map snd m1)"
    then have a: "a \<in> H" using e sub by auto
    show "a < length s1 \<and> Q (s1 ! a)"
      using H a b hit e by (cases "a = b") auto
  qed
qed

lemma heldAddrs_counters [simp]:
  "heldAddrs (d\<lparr>skippedRecords := n\<rparr>) = heldAddrs d"
  "heldAddrs (d\<lparr>totalRecords := n\<rparr>) = heldAddrs d"
  by (simp_all add: heldAddrs_def)

lemma answersLoop_pres:
  assumes hit: "\<And>x ttlo. Q x \<Longrightarrow> Q (hitStat (ts r) ttlo x)"
    and new: "\<And>ttlo. Q (newStat (ts r) ttlo)"
  shows "\<forall>a \<in> set (heldAddrs d). a < length s \<and> Q (s ! a) \<Longrightarrow>
    answersLoop r idx as s d = Inr (s1, d1) \<Longrightarrow>
    \<forall>a \<in> set (heldAddrs d1). a < length s1 \<and> Q (s1 ! a)"
proof (induction as arbitrary: idx s d)
  case Nil
  then show ?case by simp
next
  case (Cons a as)
  show ?case
  proof (cases "length a > MAX_SANE_VALUE_LEN")
    case True
    then show ?thesis using Cons.prems by auto
  next
    case short: False
    show ?thesis
    proof (cases "a = ''-''")
      case True
      then have "answersLoop r (Suc idx) as s d = Inr (s1, d1)"
        using Cons.prems(2) short by simp
      then show ?thesis using Cons.IH [OF Cons.prems(1)] by blast
    next
      case False
      have idx: "idx < length (ttls r)"
        using Cons.prems(2) short False by (auto split: if_splits)
      let ?ttl = "stripDecimal (ttls r ! idx)"
      let ?uq = "\<lparr>u_query = query r, u_answer = a, u_qtype = qtype r\<rparr>"
      let ?av = "\<lparr>u_value = a, u_which = ''A''\<rparr>"
      obtain s2 qs where u1: "upsertStat s (queries d) ?uq (ts r) (Some ?ttl) = (s2, qs)"
        by (cases "upsertStat s (queries d) ?uq (ts r) (Some ?ttl)")
      obtain s3 vs where u2: "upsertStat s2 (vals d) ?av (ts r) (Some ?ttl) = (s3, vs)"
        by (cases "upsertStat s2 (vals d) ?av (ts r) (Some ?ttl)")
      let ?d3 = "d\<lparr>queries := qs, vals := vs\<rparr>"
      have rest: "answersLoop r (Suc idx) as s3 ?d3 = Inr (s1, d1)"
        using Cons.prems(2) short False idx u1 u2 by (simp add: Let_def)
      have p1: "\<forall>a \<in> set (heldAddrs d) \<union> set (map snd qs). a < length s2 \<and> Q (s2 ! a)"
        by (rule upsertStat_pres [OF u1 Cons.prems(1) _ hit new]) (auto simp: heldAddrs_def)
      have p2: "\<forall>a \<in> (set (heldAddrs d) \<union> set (map snd qs)) \<union> set (map snd vs).
                  a < length s3 \<and> Q (s3 ! a)"
        by (rule upsertStat_pres [OF u2 p1 _ hit new]) (auto simp: heldAddrs_def)
      have "\<forall>a \<in> set (heldAddrs ?d3). a < length s3 \<and> Q (s3 ! a)"
        using p2 by (auto simp: heldAddrs_def)
      from Cons.IH [OF this rest] show ?thesis .
    qed
  qed
qed

lemma AddRecord_pres:
  assumes hit: "\<And>x ttlo. Q x \<Longrightarrow> Q (hitStat (ts r) ttlo x)"
    and new: "\<And>ttlo. Q (newStat (ts r) ttlo)"
    and inv: "\<forall>a \<in> set (heldAddrs d). a < length s \<and> Q (s ! a)"
    and ar: "AddRecord s d r = Inr (s1, d1)"
  shows "\<forall>a \<in> set (heldAddrs d1). a < length s1 \<and> Q (s1 ! a)"
proof (cases "length (query r) > MAX_SANE_VALUE_LEN")
  case True
  then show ?thesis using inv ar by (auto simp: AddRecord_def)
next
  case False
  let ?qv = "\<lparr>u_value = query r, u_which = ''Q''\<rparr>"
  let ?d0 = "d\<lparr>totalRecords := totalRecords d + 1\<rparr>"
  obtain s0 vs where u: "upsertStat s (vals ?d0) ?qv (ts r) None = (s0, vs)"
    by (cases "upsertStat s (vals ?d0) ?qv (ts r) None")
  have loop: "answersLoop r 0 (answers r) s0 (?d0\<lparr>vals := vs\<rparr>) = Inr (s1, d1)"
    using ar False u by (simp add: AddRecord_def Let_def)
  have "\<forall>a \<in> set (heldAddrs d) \<union> set (map snd vs). a < length s0 \<and> Q (s0 ! a)"
    by (rule upsertStat_pres [OF u inv _ hit new]) (auto simp: heldAddrs_def)
  then have "\<forall>a \<in> set (heldAddrs (?d0\<lparr>vals := vs\<rparr>)). a < length s0 \<and> Q (s0 ! a)"
    by (auto simp: heldAddrs_def)
  from answersLoop_pres [of Q r, OF hit new this loop] show ?thesis .
qed

lemma mergeStat_eq:
  assumes "rec < length s"
  shows "mergeStat s rec stat = s[rec := combine_spec (s ! rec) (s ! stat)]"
proof -
  obtain c f l t where x: "s ! rec = \<lparr>count = c, first = f, last' = l, ttl = t\<rparr>"
    by (cases "s ! rec") auto
  show ?thesis using assms x
    by (cases "stat = rec") (auto simp: mergeStat_def combine_spec_def Let_def min_def max_def)
qed

lemma mergeInto_pres:
  assumes comb: "\<And>x y. Q x \<Longrightarrow> Q y \<Longrightarrow> Q (combine_spec x y)"
  shows "\<forall>a \<in> H. a < length s \<and> Q (s ! a) \<Longrightarrow> set (map snd m) \<union> set (map snd other) \<subseteq> H \<Longrightarrow>
    mergeInto s m other = (s1, m1) \<Longrightarrow>
    (\<forall>a \<in> H. a < length s1 \<and> Q (s1 ! a)) \<and> set (map snd m1) \<subseteq> H"
proof (induction other arbitrary: s m)
  case Nil
  then show ?case by simp
next
  case (Cons p other)
  obtain q b where p: "p = (q, b)" by (cases p)
  show ?case
  proof (cases "map_of m q")
    case None
    then have "mergeInto s (m @ [(q, b)]) other = (s1, m1)" using Cons.prems(3) p by simp
    moreover have "set (map snd (m @ [(q, b)])) \<union> set (map snd other) \<subseteq> H"
      using Cons.prems(2) p by auto
    ultimately show ?thesis using Cons.IH [OF Cons.prems(1)] by blast
  next
    case (Some a)
    have a: "a \<in> H" using map_of_addr_in [OF Some] Cons.prems(2) by auto
    have b: "b \<in> H" using Cons.prems(2) p by auto
    have eq: "mergeStat s a b = s[a := combine_spec (s ! a) (s ! b)]"
      using a Cons.prems(1) by (simp add: mergeStat_eq)
    have run: "mergeInto (mergeStat s a b) m other = (s1, m1)"
      using Cons.prems(3) p Some by simp
    have "\<forall>c \<in> H. c < length (mergeStat s a b) \<and> Q (mergeStat s a b ! c)"
    proof
      fix c assume c: "c \<in> H"
      show "c < length (mergeStat s a b) \<and> Q (mergeStat s a b ! c)"
        unfolding eq using Cons.prems(1) a b c comb by (cases "c = a") auto
    qed
    moreover have "set (map snd m) \<union> set (map snd other) \<subseteq> H" using Cons.prems(2) by auto
    ultimately show ?thesis using Cons.IH [OF _ _ run] by blast
  qed
qed

lemma Merge_pres:
  assumes comb: "\<And>x y. Q x \<Longrightarrow> Q y \<Longrightarrow> Q (combine_spec x y)"
    and d: "\<forall>a \<in> set (heldAddrs d). a < length s \<and> Q (s ! a)"
    and o: "\<forall>a \<in> set (heldAddrs other). a < length s \<and> Q (s ! a)"
    and m: "Merge s d other = (s1, d1)"
  shows "\<forall>a \<in> set (heldAddrs d1). a < length s1 \<and> Q (s1 ! a)"
proof -
  let ?H = "set (heldAddrs d) \<union> set (heldAddrs other)"
  obtain s0 qs where q: "mergeInto s (queries d) (queries other) = (s0, qs)"
    by (cases "mergeInto s (queries d) (queries other)")
  obtain s2 vs where v: "mergeInto s0 (vals d) (vals other) = (s2, vs)"
    by (cases "mergeInto s0 (vals d) (vals other)")
  have e: "s1 = s2" "d1 = d\<lparr>queries := qs, vals := vs\<rparr>"
    using m q v by (auto simp: Merge_def)
  have H: "\<forall>a \<in> ?H. a < length s \<and> Q (s ! a)" using d o by blast
  have 1: "(\<forall>a \<in> ?H. a < length s0 \<and> Q (s0 ! a)) \<and> set (map snd qs) \<subseteq> ?H"
    by (rule mergeInto_pres [of Q, OF comb H _ q]) (auto simp: heldAddrs_def)
  have 2: "(\<forall>a \<in> ?H. a < length s2 \<and> Q (s2 ! a)) \<and> set (map snd vs) \<subseteq> ?H"
    by (rule mergeInto_pres [of Q, OF comb conjunct1 [OF 1] _ v]) (auto simp: heldAddrs_def)
  have "set (map snd qs) \<union> set (map snd vs) \<subseteq> ?H" using 1 2 by blast
  moreover have "set (heldAddrs d1) = set (map snd qs) \<union> set (map snd vs)"
    unfolding e heldAddrs_def by simp
  ultimately show ?thesis using 2 unfolding e(1) by blast
qed

lemma AddRecords_chronological:
  "\<forall>a \<in> set (heldAddrs d). a < length s \<and> first (s ! a) \<le> last' (s ! a) \<and> last' (s ! a) \<le> T \<Longrightarrow>
   \<forall>r \<in> set rs. T \<le> ts r \<Longrightarrow> sorted (map ts rs) \<Longrightarrow>
   AddRecords s d rs = Inr (s1, d1) \<Longrightarrow>
   \<forall>a \<in> set (heldAddrs d1). a < length s1 \<and> first (s1 ! a) \<le> last' (s1 ! a)"
proof (induction rs arbitrary: s d T)
  case Nil
  then show ?case by auto
next
  case (Cons r rs)
  from Cons.prems(4) obtain s2 d2 where
    one: "AddRecord s d r = Inr (s2, d2)" and rest: "AddRecords s2 d2 rs = Inr (s1, d1)"
    by (auto split: sum.splits)
  let ?Q = "\<lambda>x. first x \<le> last' x \<and> last' x \<le> ts r"
  have T: "T \<le> ts r" using Cons.prems(2) by simp
  have inv: "\<forall>a \<in> set (heldAddrs d). a < length s \<and> ?Q (s ! a)"
    using Cons.prems(1) T by fastforce
  have hit: "?Q (hitStat (ts r) ttlo x)" if "?Q x" for x ttlo
    using that by (cases ttlo) (auto simp: hitStat_def)
  have new: "?Q (newStat (ts r) ttlo)" for ttlo
    by (simp add: newStat_def)
  have inv2: "\<forall>a \<in> set (heldAddrs d2). a < length s2 \<and> ?Q (s2 ! a)"
    by (rule AddRecord_pres [of ?Q r, OF hit new inv one])
  have "\<forall>r' \<in> set rs. ts r \<le> ts r'" using Cons.prems(3) by simp
  moreover have "sorted (map ts rs)" using Cons.prems(3) by simp
  ultimately show ?case using Cons.IH [OF inv2 _ _ rest] by blast
qed

text \<open>
  C2, the claim at the empty aggregator fed a record with timestamp 10 and then one with
  timestamp 5 for the same query: first is not after last in the empty aggregator, and
  in the aggregator reached the statistic of the query has first 10 and last 5.
\<close>

theorem firstLeLast_counterexample:
  "firstLeLast [] NewDNSAggregator
   \<and> AddRecords [] NewDNSAggregator
       [\<lparr>ts = 10, query = ''a.example'', qtype = ''A'', answers = [], ttls = []\<rparr>,
        \<lparr>ts = 5, query = ''a.example'', qtype = ''A'', answers = [], ttls = []\<rparr>]
     = Inr ([\<lparr>count = 2, first = 10, last' = 5, ttl = []\<rparr>],
            \<lparr>queries = [], vals = [(\<lparr>u_value = ''a.example'', u_which = ''Q''\<rparr>, 0)],
             totalRecords = 2, skippedRecords = 0\<rparr>)
   \<and> \<not> firstLeLast [\<lparr>count = 2, first = 10, last' = 5, ttl = []\<rparr>]
           \<lparr>queries = [], vals = [(\<lparr>u_value = ''a.example'', u_which = ''Q''\<rparr>, 0)],
            totalRecords = 2, skippedRecords = 0\<rparr>"
  by (simp add: aggregator_defs firstLeLast_def heldAddrs_def)

text \<open>
  C2 as the code has it, for aggregators whose addresses are allocated. \<open>AddRecord\<close>
  keeps first not after last when the timestamp of the record is not before the first
  of any statistic held; \<open>Merge\<close> keeps it always; and so does feeding the empty
  aggregator records whose timestamps do not decrease.
\<close>

theorem firstLeLast_preserved:
  "(allocated s d \<and> firstLeLast s d \<and> (\<forall>a \<in> set (heldAddrs d). first (s ! a) \<le> ts r)
      \<and> AddRecord s d r = Inr (s1, d1) \<longrightarrow> allocated s1 d1 \<and> firstLeLast s1 d1)
   \<and> (allocated s d \<and> allocated s other \<and> firstLeLast s d \<and> firstLeLast s other
      \<and> Merge s d other = (s2, d2) \<longrightarrow> allocated s2 d2 \<and> firstLeLast s2 d2)
   \<and> (sorted (map ts rs) \<and> AddRecords [] NewDNSAggregator rs = Inr (s3, d3)
      \<longrightarrow> firstLeLast s3 d3)"
proof -
  have p1: "allocated s1 d1 \<and> firstLeLast s1 d1"
    if a: "allocated s d \<and> firstLeLast s d \<and> (\<forall>a \<in> set (heldAddrs d). first (s ! a) \<le> ts r)
      \<and> AddRecord s d r = Inr (s1, d1)"
  proof -
  let ?Q = "\<lambda>x. first x \<le> last' x \<and> first x \<le> ts r"
  have inv: "\<forall>a \<in> set (heldAddrs d). a < length s \<and> ?Q (s ! a)"
    using a by (simp add: allocated_def firstLeLast_def)
  have hit: "?Q (hitStat (ts r) ttlo x)" if "?Q x" for x ttlo
    using that by (cases ttlo) (auto simp: hitStat_def)
  have new: "?Q (newStat (ts r) ttlo)" for ttlo
    by (simp add: newStat_def)
  have ar: "AddRecord s d r = Inr (s1, d1)" using a by blast
  have "\<forall>a \<in> set (heldAddrs d1). a < length s1 \<and> ?Q (s1 ! a)"
    by (rule AddRecord_pres [of ?Q r, OF hit new inv ar])
  then show ?thesis
    by (simp add: allocated_def firstLeLast_def)
  qed
  have p2: "allocated s2 d2 \<and> firstLeLast s2 d2"
    if a: "allocated s d \<and> allocated s other \<and> firstLeLast s d \<and> firstLeLast s other
      \<and> Merge s d other = (s2, d2)"
  proof -
  let ?Q = "\<lambda>x. first x \<le> last' x"
  have comb: "?Q (combine_spec x y)" if "?Q x" for x y
    using that by (auto simp: combine_spec_def min_def max_def)
  have m: "Merge s d other = (s2, d2)" using a by blast
  have id: "\<forall>a \<in> set (heldAddrs d). a < length s \<and> ?Q (s ! a)"
    and io: "\<forall>a \<in> set (heldAddrs other). a < length s \<and> ?Q (s ! a)"
    using a by (simp_all add: allocated_def firstLeLast_def)
  have "\<forall>a \<in> set (heldAddrs d2). a < length s2 \<and> ?Q (s2 ! a)"
    by (rule Merge_pres [of ?Q d s other, OF comb id io m])
  then show ?thesis
    by (simp add: allocated_def firstLeLast_def)
  qed
  have p3: "firstLeLast s3 d3"
    if a: "sorted (map ts rs) \<and> AddRecords [] NewDNSAggregator rs = Inr (s3, d3)"
  proof (cases rs)
    case Nil
    then show ?thesis using a by (auto simp: firstLeLast_def heldAddrs_def NewDNSAggregator_def)
  next
    case (Cons r rs')
    have "\<forall>a \<in> set (heldAddrs NewDNSAggregator).
        a < length [] \<and> first ([] ! a) \<le> last' ([] ! a) \<and> last' ([] ! a) \<le> ts r"
      by (simp add: heldAddrs_def NewDNSAggregator_def)
    moreover have "\<forall>r' \<in> set rs. ts r \<le> ts r'" using a Cons by auto
    moreover have "sorted (map ts rs)" and "AddRecords [] NewDNSAggregator rs = Inr (s3, d3)"
      using a by blast+
    ultimately have "\<forall>a \<in> set (heldAddrs d3). a < length s3 \<and> first (s3 ! a) \<le> last' (s3 ! a)"
      by (rule AddRecords_chronological [of NewDNSAggregator "[]" "ts r" rs])
    then show ?thesis by (simp add: firstLeLast_def)
  qed
  show ?thesis using p1 p2 p3 by blast
qed

text \<open>
  The theorem at a record later than the statistic held, at a merge of two aggregators
  and at two records in the order of their timestamps.
\<close>

theorem firstLeLast_preserved_witness:
  "(\<exists>s1 d1. AddRecord [\<lparr>count = 1, first = 5, last' = 5, ttl = []\<rparr>]
              \<lparr>queries = [], vals = [(\<lparr>u_value = ''a.example'', u_which = ''Q''\<rparr>, 0)],
               totalRecords = 1, skippedRecords = 0\<rparr>
              \<lparr>ts = 10, query = ''a.example'', qtype = ''A'', answers = [], ttls = []\<rparr>
            = Inr (s1, d1) \<and> allocated s1 d1 \<and> firstLeLast s1 d1)
   \<and> (\<exists>s2 d2. Merge [\<lparr>count = 1, first = 5, last' = 6, ttl = []\<rparr>,
                     \<lparr>count = 1, first = 1, last' = 2, ttl = []\<rparr>]
              \<lparr>queries = [], vals = [(\<lparr>u_value = ''a.example'', u_which = ''Q''\<rparr>, 0)],
               totalRecords = 1, skippedRecords = 0\<rparr>
              \<lparr>queries = [], vals = [(\<lparr>u_value = ''a.example'', u_which = ''Q''\<rparr>, 1)],
               totalRecords = 1, skippedRecords = 0\<rparr>
            = (s2, d2) \<and> allocated s2 d2 \<and> firstLeLast s2 d2)
   \<and> (\<exists>s3 d3. AddRecords [] NewDNSAggregator
              [\<lparr>ts = 5, query = ''a.example'', qtype = ''A'', answers = [], ttls = []\<rparr>,
               \<lparr>ts = 10, query = ''a.example'', qtype = ''A'', answers = [], ttls = []\<rparr>]
            = Inr (s3, d3) \<and> firstLeLast s3 d3)"
proof -
  let ?s = "[\<lparr>count = 1, first = 5, last' = 5, ttl = []\<rparr>]"
  let ?d = "\<lparr>queries = [], vals = [(\<lparr>u_value = ''a.example'', u_which = ''Q''\<rparr>, 0)],
               totalRecords = 1, skippedRecords = 0\<rparr>"
  let ?r = "\<lparr>ts = 10, query = ''a.example'', qtype = ''A'', answers = [], ttls = []\<rparr>"
  let ?t = "[\<lparr>count = 1, first = 5, last' = 6, ttl = []\<rparr>,
                     \<lparr>count = 1, first = 1, last' = 2, ttl = []\<rparr>]"
  let ?o = "\<lparr>queries = [], vals = [(\<lparr>u_value = ''a.example'', u_which = ''Q''\<rparr>, 1)],
               totalRecords = 1, skippedRecords = 0\<rparr>"
  let ?rs = "[\<lparr>ts = 5, query = ''a.example'', qtype = ''A'', answers = [], ttls = []\<rparr>,
               \<lparr>ts = 10, query = ''a.example'', qtype = ''A'', answers = [], ttls = []\<rparr>]"
  obtain s1 d1 where r1: "AddRecord ?s ?d ?r = Inr (s1, d1)"
    by (simp add: aggregator_defs)
  obtain s2 d2 where r2: "Merge ?t ?d ?o = (s2, d2)"
    by (cases "Merge ?t ?d ?o")
  obtain s3 d3 where r3: "AddRecords [] NewDNSAggregator ?rs = Inr (s3, d3)"
    by (simp add: aggregator_defs)
  have h1: "allocated ?s ?d \<and> firstLeLast ?s ?d \<and> (\<forall>a \<in> set (heldAddrs ?d). first (?s ! a) \<le> ts ?r)"
    by (simp add: allocated_def firstLeLast_def heldAddrs_def)
  have h2: "allocated ?t ?d \<and> allocated ?t ?o \<and> firstLeLast ?t ?d \<and> firstLeLast ?t ?o"
    by (simp add: allocated_def firstLeLast_def heldAddrs_def)
  have h3: "sorted (map ts ?rs)" by simp
  note t = firstLeLast_preserved [of ?s ?d ?r s1 d1 ?o s2 d2 ?rs s3 d3]
  have c1: "allocated s1 d1 \<and> firstLeLast s1 d1" using t h1 r1 by blast
  have "allocated ?t ?d \<and> allocated ?t ?o \<and> firstLeLast ?t ?d \<and> firstLeLast ?t ?o
      \<and> Merge ?t ?d ?o = (s2, d2) \<longrightarrow> allocated s2 d2 \<and> firstLeLast s2 d2"
    using firstLeLast_preserved [of ?t ?d ?r s1 d1 ?o s2 d2 ?rs s3 d3] by blast
  then have c2: "allocated s2 d2 \<and> firstLeLast s2 d2" using h2 r2 by blast
  have c3: "firstLeLast s3 d3" using t h3 r3 by blast
  show ?thesis using r1 r2 r3 c1 c2 c3 by blast
qed

subsection \<open>Merging\<close>

lemma statOf_cong:
  "\<forall>a \<in> set (map snd m). s1 ! a = s ! a \<Longrightarrow> statOf s1 m = statOf s m"
proof
  fix k assume a: "\<forall>a \<in> set (map snd m). s1 ! a = s ! a"
  show "statOf s1 m k = statOf s m k"
  proof (cases "map_of m k")
    case None
    then show ?thesis by (simp add: statOf_def)
  next
    case (Some b)
    have "s1 ! b = s ! b" using a map_of_addr_in [OF Some] by blast
    then show ?thesis using Some by (simp add: statOf_def)
  qed
qed

lemma merge_spec_empty [simp]: "merge_spec A (\<lambda>k. None) = A"
  by (rule ext) (simp add: merge_spec_def)

lemma statOf_snoc:
  "map_of m q = None \<Longrightarrow> statOf s (m @ [(q, b)]) = (statOf s m)(q \<mapsto> s ! b)"
  by (rule ext) (auto simp: statOf_def map_of_snoc simp del: map_of_append split: option.splits)

lemma statOf_Cons: "statOf s ((q, b) # m) = (statOf s m)(q \<mapsto> s ! b)"
  by (rule ext) (simp add: statOf_def)

lemma statOf_None: "q \<notin> fst ` set m \<Longrightarrow> statOf s m q = None"
  by (simp add: statOf_def map_of_eq_None_iff)

lemma mergeInto_refines:
  "mergeInto s m other = (s1, m1) \<Longrightarrow>
   \<forall>a \<in> set (map snd m) \<union> set (map snd other). a < length s \<Longrightarrow>
   distinct (map snd m) \<Longrightarrow> distinct (map fst other) \<Longrightarrow> distinct (map snd other) \<Longrightarrow>
   set (map snd m) \<inter> set (map snd other) = {} \<Longrightarrow>
   statOf s1 m1 = merge_spec (statOf s m) (statOf s other)
   \<and> length s1 = length s
   \<and> (\<forall>c. (\<forall>q \<in> fst ` set other. map_of m q \<noteq> Some c) \<longrightarrow> s1 ! c = s ! c)
   \<and> set (map snd m1) \<subseteq> set (map snd m) \<union> set (map snd other)
   \<and> distinct (map snd m1)
   \<and> (distinct (map fst m) \<longrightarrow> distinct (map fst m1))"
proof (induction other arbitrary: s m)
  case Nil
  then show ?case by simp
next
  case (Cons p other)
  obtain q b where p: "p = (q, b)" by (cases p)
  have q_rest: "q \<notin> fst ` set other" and b_rest: "b \<notin> set (map snd other)"
    and b_m: "b \<notin> set (map snd m)" and b_len: "b < length s"
    and d_rest: "distinct (map fst other)" "distinct (map snd other)"
    using Cons.prems p by auto
  show ?case
  proof (cases "map_of m q")
    case None
    let ?m = "m @ [(q, b)]"
    have run: "mergeInto s ?m other = (s1, m1)" using Cons.prems(1) p None by simp
    have 1: "\<forall>a \<in> set (map snd ?m) \<union> set (map snd other). a < length s"
      using Cons.prems(2) p by auto
    have 2: "distinct (map snd ?m)" using Cons.prems(3) b_m by simp
    have 3: "set (map snd ?m) \<inter> set (map snd other) = {}"
      using Cons.prems(6) p b_rest by auto
    note ih = Cons.IH [OF run 1 2 d_rest 3]
    have lookup: "map_of ?m k = (if k = q then Some b else map_of m k)" for k
      using None by (auto simp: map_of_snoc simp del: map_of_append split: option.splits)
    have view: "merge_spec (statOf s ?m) (statOf s other) = merge_spec (statOf s m) (statOf s (p # other))"
    proof
      fix k
      have "statOf s other q = None" using q_rest by (rule statOf_None)
      moreover have "statOf s m q = None" using None by (simp add: statOf_def)
      ultimately show "merge_spec (statOf s ?m) (statOf s other) k
          = merge_spec (statOf s m) (statOf s (p # other)) k"
        unfolding p statOf_Cons statOf_snoc [OF None]
        by (simp add: merge_spec_def split: option.splits)
    qed
    have frame: "s1 ! c = s ! c" if c: "\<forall>k \<in> fst ` set (p # other). map_of m k \<noteq> Some c" for c
    proof -
      have "map_of ?m k \<noteq> Some c" if k: "k \<in> fst ` set other" for k
      proof -
        have "k \<noteq> q" using k q_rest by blast
        then have "map_of ?m k = map_of m k" by (simp only: lookup if_False)
        moreover have "map_of m k \<noteq> Some c" using c k by auto
        ultimately show ?thesis by simp
      qed
      then show ?thesis using ih by blast
    qed
    have keys: "distinct (map fst m) \<longrightarrow> distinct (map fst m1)"
    proof
      assume "distinct (map fst m)"
      then have "distinct (map fst ?m)" using None by (simp add: map_of_eq_None_iff)
      then show "distinct (map fst m1)" using ih by blast
    qed
    have sub: "set (map snd m1) \<subseteq> set (map snd m) \<union> set (map snd (p # other))"
      using ih p by auto
    show ?thesis using ih view frame keys sub by simp
  next
    case (Some a)
    let ?s = "mergeStat s a b"
    have a_m: "a \<in> set (map snd m)" using map_of_addr_in [OF Some] .
    then have a_len: "a < length s" using Cons.prems(2) by auto
    have eq: "?s = s[a := combine_spec (s ! a) (s ! b)]" using a_len by (rule mergeStat_eq)
    have run: "mergeInto ?s m other = (s1, m1)" using Cons.prems(1) p Some by simp
    have 1: "\<forall>a \<in> set (map snd m) \<union> set (map snd other). a < length ?s"
      using Cons.prems(2) eq by auto
    have 3: "set (map snd m) \<inter> set (map snd other) = {}" using Cons.prems(6) by auto
    note ih = Cons.IH [OF run 1 Cons.prems(3) d_rest 3]
    have a_b: "a \<noteq> b" using a_m b_m by auto
    have rest_same: "statOf ?s other = statOf s other"
    proof (rule statOf_cong, rule ballI)
      fix c assume "c \<in> set (map snd other)"
      then have "c \<noteq> a" using a_m 3 by auto
      then show "?s ! c = s ! c" by (simp add: eq)
    qed
    have m_upd: "statOf ?s m = (statOf s m)(q \<mapsto> combine_spec (s ! a) (s ! b))"
    proof
      fix k
      show "statOf ?s m k = ((statOf s m)(q \<mapsto> combine_spec (s ! a) (s ! b))) k"
      proof (cases "map_of m k")
        case None
        then show ?thesis using Some by (auto simp: statOf_def)
      next
        case Some': (Some c)
        show ?thesis
        proof (cases "k = q")
          case True
          then show ?thesis using Some a_len by (simp add: statOf_def eq)
        next
          case False
          then have "c \<noteq> a" using map_of_addr_unique [OF Cons.prems(3) Some' ] Some by auto
          then show ?thesis using Some' False by (simp add: statOf_def eq)
        qed
      qed
    qed
    have view: "merge_spec (statOf ?s m) (statOf ?s other) = merge_spec (statOf s m) (statOf s (p # other))"
    proof
      fix k
      have "statOf s other q = None" using q_rest by (rule statOf_None)
      moreover have "statOf s m q = Some (s ! a)" using Some by (simp add: statOf_def)
      ultimately show "merge_spec (statOf ?s m) (statOf ?s other) k
          = merge_spec (statOf s m) (statOf s (p # other)) k"
        unfolding rest_same m_upd p statOf_Cons
        by (simp add: merge_spec_def split: option.splits)
    qed
    have frame: "s1 ! c = s ! c" if c: "\<forall>k \<in> fst ` set (p # other). map_of m k \<noteq> Some c" for c
    proof -
      have "c \<noteq> a" using c Some p by auto
      moreover have "s1 ! c = ?s ! c" using c ih by auto
      ultimately show ?thesis by (simp add: eq)
    qed
    have len: "length s1 = length s" using ih eq by simp
    have sub: "set (map snd m1) \<subseteq> set (map snd m) \<union> set (map snd (p # other))"
      using ih by auto
    show ?thesis using ih view frame len sub by simp
  qed
qed

lemma mergeInto_frame:
  assumes "mergeInto s m other = (s1, m1)"
    and "\<forall>a \<in> set (map snd m) \<union> set (map snd other). a < length s"
    and "distinct (map snd m)" and "distinct (map fst other)" and "distinct (map snd other)"
    and "set (map snd m) \<inter> set (map snd other) = {}"
    and "c \<notin> set (map snd m)"
  shows "s1 ! c = s ! c"
proof -
  have "\<forall>q \<in> fst ` set other. map_of m q \<noteq> Some c"
    using assms(7) map_of_addr_in by fastforce
  then show ?thesis using mergeInto_refines [OF assms(1-6)] by blast
qed

lemma disjoint_merged:
  assumes "QS \<subseteq> QD \<union> QO" and "VS \<subseteq> VD \<union> VO"
    and "QD \<inter> VD = {}" and "QD \<inter> VO = {}" and "VD \<inter> QO = {}" and "QO \<inter> VO = {}"
  shows "QS \<inter> VS = {}"
proof -
  have False if "a \<in> QS" "a \<in> VS" for a
  proof -
    have "a \<in> QD \<or> a \<in> QO" "a \<in> VD \<or> a \<in> VO" using that assms(1,2) by blast+
    then show False using assms(3-6) by blast
  qed
  then show ?thesis by blast
qed

lemma Merge_refines:
  assumes wfd: "wellFormed s d" and wfo: "wellFormed s other" and sep: "separate d other"
    and m: "Merge s d other = (s1, d1)"
  shows "wellFormed s1 d1
    \<and> statOf s1 (queries d1) = merge_spec (statOf s (queries d)) (statOf s (queries other))
    \<and> statOf s1 (vals d1) = merge_spec (statOf s (vals d)) (statOf s (vals other))
    \<and> length s1 = length s
    \<and> (\<forall>c. c \<notin> set (heldAddrs d) \<longrightarrow> s1 ! c = s ! c)
    \<and> set (heldAddrs d1) \<subseteq> set (heldAddrs d) \<union> set (heldAddrs other)"
proof -
  let ?QD = "set (map snd (queries d))" and ?VD = "set (map snd (vals d))"
  let ?QO = "set (map snd (queries other))" and ?VO = "set (map snd (vals other))"
  have dq: "distinct (map snd (queries d))" and dv: "distinct (map snd (vals d))"
    and kq: "distinct (map fst (queries d))" and kv: "distinct (map fst (vals d))"
    and dd: "?QD \<inter> ?VD = {}"
    and ad: "\<forall>a \<in> ?QD \<union> ?VD. a < length s"
    using wfd by (auto simp: wellFormed_def heldAddrs_def allocated_def)
  have oq: "distinct (map snd (queries other))" and ov: "distinct (map snd (vals other))"
    and okq: "distinct (map fst (queries other))" and okv: "distinct (map fst (vals other))"
    and oo: "?QO \<inter> ?VO = {}"
    and ao: "\<forall>a \<in> ?QO \<union> ?VO. a < length s"
    using wfo by (auto simp: wellFormed_def heldAddrs_def allocated_def)
  have s1: "?QD \<inter> ?QO = {}" and s2: "?QD \<inter> ?VO = {}" and s3: "?VD \<inter> ?QO = {}"
    and s4: "?VD \<inter> ?VO = {}"
    using sep by (auto simp: separate_def heldAddrs_def)
  obtain s0 qs where q: "mergeInto s (queries d) (queries other) = (s0, qs)"
    by (cases "mergeInto s (queries d) (queries other)")
  obtain s2 vs where v: "mergeInto s0 (vals d) (vals other) = (s2, vs)"
    by (cases "mergeInto s0 (vals d) (vals other)")
  have e: "s1 = s2" "d1 = d\<lparr>queries := qs, vals := vs\<rparr>"
    using m q v by (auto simp: Merge_def)
  have aq: "\<forall>a \<in> ?QD \<union> ?QO. a < length s" using ad ao by blast
  note rq = mergeInto_refines [OF q aq dq okq oq s1]
  note rq_sub = rq [THEN conjunct2, THEN conjunct2, THEN conjunct2, THEN conjunct1]
  note rq_dsnd = rq [THEN conjunct2, THEN conjunct2, THEN conjunct2, THEN conjunct2, THEN conjunct1]
  note rq_dfst = rq [THEN conjunct2, THEN conjunct2, THEN conjunct2, THEN conjunct2,
    THEN conjunct2, THEN mp, OF kq]
  have len0: "length s0 = length s" using rq [THEN conjunct2, THEN conjunct1] .
  have av: "\<forall>a \<in> ?VD \<union> ?VO. a < length s0" using ad ao len0 by auto
  note rv = mergeInto_refines [OF v av dv okv ov s4]
  note rv_sub = rv [THEN conjunct2, THEN conjunct2, THEN conjunct2, THEN conjunct1]
  note rv_dsnd = rv [THEN conjunct2, THEN conjunct2, THEN conjunct2, THEN conjunct2, THEN conjunct1]
  note rv_dfst = rv [THEN conjunct2, THEN conjunct2, THEN conjunct2, THEN conjunct2,
    THEN conjunct2, THEN mp, OF kv]
  have len2: "length s2 = length s" using rv [THEN conjunct2, THEN conjunct1] len0 by simp
  have f0: "s0 ! c = s ! c" if "c \<notin> ?QD" for c
    using mergeInto_frame [OF q aq dq okq oq s1 that] .
  have f2: "s2 ! c = s0 ! c" if "c \<notin> ?VD" for c
    using mergeInto_frame [OF v av dv okv ov s4 that] .
  have sq: "set (map snd qs) \<subseteq> ?QD \<union> ?QO" using rq_sub .
  have sv: "set (map snd vs) \<subseteq> ?VD \<union> ?VO" using rv_sub .
  have vd0: "statOf s0 (vals d) = statOf s (vals d)"
    using dd by (intro statOf_cong ballI f0) blast
  have vo0: "statOf s0 (vals other) = statOf s (vals other)"
    using s2 by (intro statOf_cong ballI f0) blast
  have qs2: "statOf s2 qs = statOf s0 qs"
    using sq dd s3 by (intro statOf_cong ballI f2) blast
  have V: "statOf s2 vs = merge_spec (statOf s (vals d)) (statOf s (vals other))"
    using rv [THEN conjunct1] unfolding vd0 vo0 .
  have Q: "statOf s2 qs = merge_spec (statOf s (queries d)) (statOf s (queries other))"
    using rq [THEN conjunct1] unfolding qs2 .
  have dis: "set (map snd qs) \<inter> set (map snd vs) = {}"
    using sq sv dd s2 s3 oo by (rule disjoint_merged)
  have al: "a < length s2" if "a \<in> set (map snd qs) \<union> set (map snd vs)" for a
  proof -
    have "a \<in> (?QD \<union> ?VD) \<union> (?QO \<union> ?VO)" using that sq sv by blast
    then have "a < length s" using ad ao by blast
    then show ?thesis using len2 by simp
  qed
  have wf: "wellFormed s2 (d\<lparr>queries := qs, vals := vs\<rparr>)"
    using rq_dsnd rv_dsnd rq_dfst rv_dfst dis al
    by (simp add: wellFormed_def heldAddrs_def allocated_def)
  have frame: "s2 ! c = s ! c" if "c \<notin> set (heldAddrs d)" for c
  proof -
    have "c \<notin> ?QD" "c \<notin> ?VD" using that by (auto simp: heldAddrs_def)
    then show ?thesis using f0 f2 by simp
  qed
  have sub: "set (heldAddrs (d\<lparr>queries := qs, vals := vs\<rparr>)) \<subseteq> set (heldAddrs d) \<union> set (heldAddrs other)"
    using sq sv by (auto simp: heldAddrs_def)
  show ?thesis unfolding e
    by (intro conjI allI impI) (simp_all add: wf Q V len2 frame sub)
qed

lemma merge_spec_assoc:
  "merge_spec (merge_spec A B) C = merge_spec A (merge_spec B C)"
  by (rule ext)
     (auto simp: merge_spec_def combine_spec_def min.assoc max.assoc add.assoc
           split: option.splits)

lemma wellFormed_length: "wellFormed s d \<Longrightarrow> length s1 = length s \<Longrightarrow> wellFormed s1 d"
  by (simp add: wellFormed_def allocated_def)

lemma separate_frame:
  assumes "separate A B" and "\<forall>c. c \<notin> set (heldAddrs B) \<longrightarrow> s1 ! c = s ! c"
  shows "statOf s1 (queries A) = statOf s (queries A)" and "statOf s1 (vals A) = statOf s (vals A)"
proof -
  have "s1 ! a = s ! a" if "a \<in> set (heldAddrs A)" for a
    using that assms by (auto simp: separate_def)
  then show "statOf s1 (queries A) = statOf s (queries A)"
    and "statOf s1 (vals A) = statOf s (vals A)"
    by (auto intro!: statOf_cong simp: heldAddrs_def)
qed

lemma separate_sym: "separate A B \<Longrightarrow> separate B A"
  by (auto simp: separate_def)

lemma separate_merged:
  assumes "separate A C" and "separate B C"
    and "set (heldAddrs AB) \<subseteq> set (heldAddrs A) \<union> set (heldAddrs B)"
  shows "separate AB C"
  using assms unfolding separate_def by blast

text \<open>
  C4: the aggregators are private, as the specification has them in the merge phase:
  each is well formed and no two of them hold the same \<open>queryStat\<close> object. A merge
  leaves in the destination, key by key, what the combine rule gives: a key absent in the
  destination is adopted; a key present in both gets the sum of the counts, the smaller
  first, the larger last and the ttl of the other. Consequently merging B and then C
  into A yields for every key the same statistic, and so the same count, first and last,
  as merging into A the result of merging C into B.
\<close>

theorem Merge_keywise_associative:
  assumes wf: "wellFormed s A" "wellFormed s B" "wellFormed s C"
    and sep: "separate A B" "separate A C" "separate B C"
    and left: "Merge s A B = (s1, AB)" "Merge s1 AB C = (s2, ABC)"
    and right: "Merge s B C = (t1, BC)" "Merge t1 A BC = (t2, A_BC)"
  shows "statOf s1 (queries AB) = merge_spec (statOf s (queries A)) (statOf s (queries B))
       \<and> statOf s1 (vals AB) = merge_spec (statOf s (vals A)) (statOf s (vals B))
       \<and> statOf s2 (queries ABC) = statOf t2 (queries A_BC)
       \<and> statOf s2 (vals ABC) = statOf t2 (vals A_BC)"
proof -
  note ab = Merge_refines [OF wf(1) wf(2) sep(1) left(1)]
  have ab_wf: "wellFormed s1 AB" using ab [THEN conjunct1] .
  have ab_q: "statOf s1 (queries AB) = merge_spec (statOf s (queries A)) (statOf s (queries B))"
    using ab [THEN conjunct2, THEN conjunct1] .
  have ab_v: "statOf s1 (vals AB) = merge_spec (statOf s (vals A)) (statOf s (vals B))"
    using ab [THEN conjunct2, THEN conjunct2, THEN conjunct1] .
  have ab_len: "length s1 = length s"
    using ab [THEN conjunct2, THEN conjunct2, THEN conjunct2, THEN conjunct1] .
  have ab_frame: "\<forall>c. c \<notin> set (heldAddrs A) \<longrightarrow> s1 ! c = s ! c"
    using ab [THEN conjunct2, THEN conjunct2, THEN conjunct2, THEN conjunct2, THEN conjunct1] .
  have ab_sub: "set (heldAddrs AB) \<subseteq> set (heldAddrs A) \<union> set (heldAddrs B)"
    using ab [THEN conjunct2, THEN conjunct2, THEN conjunct2, THEN conjunct2, THEN conjunct2] .
  have c_wf: "wellFormed s1 C" using wf(3) ab_len by (rule wellFormed_length)
  have c_same: "statOf s1 (queries C) = statOf s (queries C)" "statOf s1 (vals C) = statOf s (vals C)"
    using separate_frame [OF separate_sym [OF sep(2)] ab_frame] .
  note abc = Merge_refines [OF ab_wf c_wf separate_merged [OF sep(2) sep(3) ab_sub] left(2)]
  have L_q: "statOf s2 (queries ABC)
      = merge_spec (merge_spec (statOf s (queries A)) (statOf s (queries B))) (statOf s (queries C))"
    using abc [THEN conjunct2, THEN conjunct1] unfolding ab_q c_same .
  have L_v: "statOf s2 (vals ABC)
      = merge_spec (merge_spec (statOf s (vals A)) (statOf s (vals B))) (statOf s (vals C))"
    using abc [THEN conjunct2, THEN conjunct2, THEN conjunct1] unfolding ab_v c_same .
  note bc = Merge_refines [OF wf(2) wf(3) sep(3) right(1)]
  have bc_wf: "wellFormed t1 BC" using bc [THEN conjunct1] .
  have bc_q: "statOf t1 (queries BC) = merge_spec (statOf s (queries B)) (statOf s (queries C))"
    using bc [THEN conjunct2, THEN conjunct1] .
  have bc_v: "statOf t1 (vals BC) = merge_spec (statOf s (vals B)) (statOf s (vals C))"
    using bc [THEN conjunct2, THEN conjunct2, THEN conjunct1] .
  have bc_len: "length t1 = length s"
    using bc [THEN conjunct2, THEN conjunct2, THEN conjunct2, THEN conjunct1] .
  have bc_frame: "\<forall>c. c \<notin> set (heldAddrs B) \<longrightarrow> t1 ! c = s ! c"
    using bc [THEN conjunct2, THEN conjunct2, THEN conjunct2, THEN conjunct2, THEN conjunct1] .
  have bc_sub: "set (heldAddrs BC) \<subseteq> set (heldAddrs B) \<union> set (heldAddrs C)"
    using bc [THEN conjunct2, THEN conjunct2, THEN conjunct2, THEN conjunct2, THEN conjunct2] .
  have a_wf: "wellFormed t1 A" using wf(1) bc_len by (rule wellFormed_length)
  have a_same: "statOf t1 (queries A) = statOf s (queries A)" "statOf t1 (vals A) = statOf s (vals A)"
    using separate_frame [OF sep(1) bc_frame] .
  have a_bc: "separate A BC"
    using separate_merged [OF separate_sym [OF sep(1)] separate_sym [OF sep(2)] bc_sub]
    by (rule separate_sym)
  note abc' = Merge_refines [OF a_wf bc_wf a_bc right(2)]
  have R_q: "statOf t2 (queries A_BC)
      = merge_spec (statOf s (queries A)) (merge_spec (statOf s (queries B)) (statOf s (queries C)))"
    using abc' [THEN conjunct2, THEN conjunct1] unfolding bc_q a_same .
  have R_v: "statOf t2 (vals A_BC)
      = merge_spec (statOf s (vals A)) (merge_spec (statOf s (vals B)) (statOf s (vals C)))"
    using abc' [THEN conjunct2, THEN conjunct2, THEN conjunct1] unfolding bc_v a_same .
  show ?thesis
    unfolding L_q L_v R_q R_v merge_spec_assoc using ab_q ab_v by simp
qed

text \<open>The theorem at three aggregators that each hold a statistic of their own of one key.\<close>

theorem Merge_keywise_associative_witness:
  "\<exists>s1 AB s2 ABC t1 BC t2 A_BC.
     Merge [\<lparr>count = 1, first = 5, last' = 6, ttl = ''30''\<rparr>,
            \<lparr>count = 2, first = 1, last' = 2, ttl = ''60''\<rparr>,
            \<lparr>count = 3, first = 8, last' = 9, ttl = ''90''\<rparr>]
       \<lparr>queries = [(\<lparr>u_query = ''a.example'', u_answer = ''1.2.3.4'', u_qtype = ''A''\<rparr>, 0)],
        vals = [], totalRecords = 1, skippedRecords = 0\<rparr>
       \<lparr>queries = [(\<lparr>u_query = ''a.example'', u_answer = ''1.2.3.4'', u_qtype = ''A''\<rparr>, 1)],
        vals = [], totalRecords = 2, skippedRecords = 0\<rparr> = (s1, AB)
     \<and> Merge s1 AB
       \<lparr>queries = [(\<lparr>u_query = ''a.example'', u_answer = ''1.2.3.4'', u_qtype = ''A''\<rparr>, 2)],
        vals = [], totalRecords = 3, skippedRecords = 0\<rparr> = (s2, ABC)
     \<and> Merge [\<lparr>count = 1, first = 5, last' = 6, ttl = ''30''\<rparr>,
            \<lparr>count = 2, first = 1, last' = 2, ttl = ''60''\<rparr>,
            \<lparr>count = 3, first = 8, last' = 9, ttl = ''90''\<rparr>]
       \<lparr>queries = [(\<lparr>u_query = ''a.example'', u_answer = ''1.2.3.4'', u_qtype = ''A''\<rparr>, 1)],
        vals = [], totalRecords = 2, skippedRecords = 0\<rparr>
       \<lparr>queries = [(\<lparr>u_query = ''a.example'', u_answer = ''1.2.3.4'', u_qtype = ''A''\<rparr>, 2)],
        vals = [], totalRecords = 3, skippedRecords = 0\<rparr> = (t1, BC)
     \<and> Merge t1
       \<lparr>queries = [(\<lparr>u_query = ''a.example'', u_answer = ''1.2.3.4'', u_qtype = ''A''\<rparr>, 0)],
        vals = [], totalRecords = 1, skippedRecords = 0\<rparr> BC = (t2, A_BC)
     \<and> statOf s1 (queries AB) \<lparr>u_query = ''a.example'', u_answer = ''1.2.3.4'', u_qtype = ''A''\<rparr>
         = Some \<lparr>count = 3, first = 1, last' = 6, ttl = ''60''\<rparr>
     \<and> statOf s2 (queries ABC) = statOf t2 (queries A_BC)
     \<and> statOf s2 (vals ABC) = statOf t2 (vals A_BC)"
proof -
  let ?S = "[\<lparr>count = 1, first = 5, last' = 6, ttl = ''30''\<rparr>,
            \<lparr>count = 2, first = 1, last' = 2, ttl = ''60''\<rparr>,
            \<lparr>count = 3, first = 8, last' = 9, ttl = ''90''\<rparr>]"
  let ?k = "\<lparr>u_query = ''a.example'', u_answer = ''1.2.3.4'', u_qtype = ''A''\<rparr>"
  let ?A = "\<lparr>queries = [(?k, 0)], vals = [], totalRecords = 1, skippedRecords = 0\<rparr>"
  let ?B = "\<lparr>queries = [(?k, 1)], vals = [], totalRecords = 2, skippedRecords = 0\<rparr>"
  let ?C = "\<lparr>queries = [(?k, 2)], vals = [], totalRecords = 3, skippedRecords = 0\<rparr>"
  obtain s1 AB where l1: "Merge ?S ?A ?B = (s1, AB)" by (cases "Merge ?S ?A ?B")
  obtain s2 ABC where l2: "Merge s1 AB ?C = (s2, ABC)" by (cases "Merge s1 AB ?C")
  obtain t1 BC where r1: "Merge ?S ?B ?C = (t1, BC)" by (cases "Merge ?S ?B ?C")
  obtain t2 A_BC where r2: "Merge t1 ?A BC = (t2, A_BC)" by (cases "Merge t1 ?A BC")
  have wf: "wellFormed ?S ?A" "wellFormed ?S ?B" "wellFormed ?S ?C"
    by (simp_all add: wellFormed_def heldAddrs_def allocated_def)
  have sep: "separate ?A ?B" "separate ?A ?C" "separate ?B ?C"
    by (simp_all add: separate_def heldAddrs_def)
  note t = Merge_keywise_associative [OF wf sep l1 l2 r1 r2]
  have "statOf s1 (queries AB) ?k = merge_spec (statOf ?S (queries ?A)) (statOf ?S (queries ?B)) ?k"
    using t [THEN conjunct1] by simp
  then have c1: "statOf s1 (queries AB) ?k = Some \<lparr>count = 3, first = 1, last' = 6, ttl = ''60''\<rparr>"
    by (simp add: merge_spec_def combine_spec_def statOf_def)
  have c2: "statOf s2 (queries ABC) = statOf t2 (queries A_BC)"
    using t [THEN conjunct2, THEN conjunct2, THEN conjunct1] .
  have c3: "statOf s2 (vals ABC) = statOf t2 (vals A_BC)"
    using t [THEN conjunct2, THEN conjunct2, THEN conjunct2] .
  show ?thesis
    by (intro exI conjI) (rule l1 l2 r1 r2 c1 c2 c3)+
qed

section \<open>Properties of the store\<close>

subsection \<open>Closing the store\<close>

lemma Close_not_Some: "Close s = Some r \<Longrightarrow> False"
  by (erule Close.raw_induct [where P = "\<lambda>_ _. False", rotated]) blast

text \<open>
  C10: for every store handle, \<open>Close\<close> does not return: there is no error value and no
  handle after the call, so none in which the connection has been released.
\<close>

theorem Close_never_returns: "Close s = None"
  using Close_not_Some [of s] by (cases "Close s") auto

subsection \<open>The store: procedures, batches and \<open>Update\<close>\<close>


lemma update_tuples_eq:
  "update_tuples tab q ty a tt c f l =
     (case tab (q, ty, a) of
        None \<Rightarrow> Inr (tab((q, ty, a) \<mapsto> \<lparr>t_count = c, t_ttl = tt, t_first = f, t_last = l\<rparr>), CHR ''I'')
      | Some row \<Rightarrow>
          if int8_ok (t_count row + c)
          then Inr (tab((q, ty, a) \<mapsto> \<lparr>t_count = t_count row + c, t_ttl = tt,
                                       t_first = min f (t_first row),
                                       t_last = max l (t_last row)\<rparr>), CHR ''U'')
          else Inl numeric_value_out_of_range)"
  by (subst update_tuples.simps)
     (simp add: UPDATE_tuples_def INSERT_tuples_def split: option.splits)

lemma update_individual_eq:
  "update_individual tab w v c f l =
     (case tab (w, v) of
        None \<Rightarrow> Inr (tab((w, v) \<mapsto> \<lparr>i_count = c, i_first = f, i_last = l\<rparr>), CHR ''I'')
      | Some row \<Rightarrow>
          if int8_ok (i_count row + c)
          then Inr (tab((w, v) \<mapsto> \<lparr>i_count = i_count row + c, i_first = min f (i_first row),
                                   i_last = max l (i_last row)\<rparr>), CHR ''U'')
          else Inl numeric_value_out_of_range)"
  by (subst update_individual.simps)
     (simp add: UPDATE_individual_def INSERT_individual_def split: option.splits)

lemma selectBatch_append:
  "selectBatch call tab (xs @ ys) =
     (case selectBatch call tab xs of
        Inl e \<Rightarrow> Inl e
      | Inr (tab1, out1) \<Rightarrow>
          (case selectBatch call tab1 ys of
             Inl e \<Rightarrow> Inl e
           | Inr (tab2, out2) \<Rightarrow> Inr (tab2, out1 @ out2)))"
  by (induction xs arbitrary: tab) (auto split: sum.splits prod.splits)

lemma tally_append: "tally result (xs @ ys) = tally (tally result xs) ys"
  by (induction xs arbitrary: result) auto

lemma seqStmt_queryTuples: "seqStmt (queryTuples e)"
  by (auto simp: seqStmt_def queryTuples_def selectBatch_append split: sum.splits prod.splits)

lemma seqStmt_queryIndividual: "seqStmt queryIndividual"
  by (auto simp: seqStmt_def queryIndividual_def selectBatch_append split: sum.splits prod.splits)

lemma batchLoop_runBatch:
  assumes "seqStmt stmt" and "\<forall>n. \<not> prepare_fails e tmpl n"
  shows "length arguments = n \<Longrightarrow> n < BATCHSIZE \<Longrightarrow>
    (case batchLoop (runBatch e tmpl stmt) mk qs arguments n st of
       Inl x \<Rightarrow> Inl x
     | Inr (arguments1, n1, st1) \<Rightarrow> runBatch e tmpl stmt arguments1 n1 st1)
    = runAll stmt (arguments @ map mk qs) st"
proof (induction qs arbitrary: arguments n st)
  case Nil
  then show ?case using assms
    by (cases arguments) (auto simp: runBatch_def runAll_def seqStmt_def)
next
  case (Cons q qs)
  show ?case
  proof (cases "Suc n = BATCHSIZE")
    case True
    have full: "runBatch e tmpl stmt (arguments @ [mk q]) (Suc n) st = runAll stmt (arguments @ [mk q]) st"
      using True by (simp add: runBatch_def runAll_def)
    show ?thesis
    proof (cases "stmt (snd st) (arguments @ [mk q])")
      case (Inl err)
      then have "stmt (snd st) ((arguments @ [mk q]) @ map mk qs) = Inl err"
        using assms(1) unfolding seqStmt_def by (metis old.sum.simps(5))
      then show ?thesis using True Inl full by (simp add: runAll_def)
    next
      case (Inr p)
      obtain db1 out1 where p: "p = (db1, out1)" by (cases p)
      have st1: "runBatch e tmpl stmt (arguments @ [mk q]) (Suc n) st = Inr (tally (fst st) out1, db1)"
        using full Inr p by (simp add: runAll_def)
      have "0 < BATCHSIZE" by (simp add: BATCHSIZE_def)
      then have ih: "(case batchLoop (runBatch e tmpl stmt) mk qs [] 0 (tally (fst st) out1, db1) of
           Inl x \<Rightarrow> Inl x
         | Inr (arguments1, n1, st1) \<Rightarrow> runBatch e tmpl stmt arguments1 n1 st1)
        = runAll stmt ([] @ map mk qs) (tally (fst st) out1, db1)"
        by (intro Cons.IH) auto
      have "stmt (snd st) ((arguments @ [mk q]) @ map mk qs) =
         (case stmt db1 (map mk qs) of Inl e \<Rightarrow> Inl e | Inr (db2, out2) \<Rightarrow> Inr (db2, out1 @ out2))"
        using assms(1) Inr p unfolding seqStmt_def by (metis (mono_tags, lifting) old.sum.simps(6) old.prod.case)
      then show ?thesis using True st1 ih
        by (auto simp: runAll_def tally_append split: sum.splits prod.splits)
    qed
  next
    case False
    then have "Suc n < BATCHSIZE" using Cons.prems by simp
    then have "(case batchLoop (runBatch e tmpl stmt) mk qs (arguments @ [mk q]) (Suc n) st of
           Inl x \<Rightarrow> Inl x
         | Inr (arguments1, n1, st1) \<Rightarrow> runBatch e tmpl stmt arguments1 n1 st1)
        = runAll stmt ((arguments @ [mk q]) @ map mk qs) st"
      using Cons.prems by (intro Cons.IH) auto
    then show ?thesis using False by (simp add: Let_def)
  qed
qed



lemma BATCHSIZE_pos: "0 < BATCHSIZE"
  by (simp add: BATCHSIZE_def)

lemma case_sum_nest:
  "(case X of Inl x \<Rightarrow> F x
    | Inr (a, n, st) \<Rightarrow> (case G a n st of Inl x \<Rightarrow> F x | Inr st1 \<Rightarrow> H st1))
   = (case (case X of Inl x \<Rightarrow> Inl x | Inr (a, n, st) \<Rightarrow> G a n st) of
        Inl x \<Rightarrow> F x | Inr st1 \<Rightarrow> H st1)"
  by (auto split: sum.splits prod.splits)

lemma Update_eq:
  assumes "\<not> beginTx_fails e" and "\<forall>k n. \<not> prepare_fails e k n"
  shows "Update e Reverse ToTS db ar =
     (case runRows e Reverse ToTS db ar of
        Inl x \<Rightarrow> (x, db)
      | Inr (result1, db1) \<Rightarrow>
          if commit_fails e then (Returned result1 (Some CommitError), db)
          else (Returned result1 None, db1))"
proof -
  let ?r0 = "\<lparr>Inserted = 0, Updated = 0\<rparr>"
  have t: "(case batchLoop (runBatch e TupleStmt (queryTuples e)) (tupleArguments Reverse ToTS)
               (Tuples ar) [] 0 (?r0, db) of
             Inl x \<Rightarrow> Inl x
           | Inr (arguments1, n1, st1) \<Rightarrow> runBatch e TupleStmt (queryTuples e) arguments1 n1 st1)
         = runAll (queryTuples e) ([] @ map (tupleArguments Reverse ToTS) (Tuples ar)) (?r0, db)"
    using assms(2) by (intro batchLoop_runBatch seqStmt_queryTuples) (auto simp: BATCHSIZE_pos)
  have i: "(case batchLoop (runBatch e IndividualStmt queryIndividual)
               (individualArguments Reverse ToTS) (Individual ar) [] 0 st of
             Inl x \<Rightarrow> Inl x
           | Inr (arguments1, n1, st1) \<Rightarrow> runBatch e IndividualStmt queryIndividual arguments1 n1 st1)
         = runAll queryIndividual ([] @ map (individualArguments Reverse ToTS) (Individual ar)) st"
    for st
    using assms(2) by (intro batchLoop_runBatch seqStmt_queryIndividual) (auto simp: BATCHSIZE_pos)
  show ?thesis
    unfolding Update_def runRows_def Let_def case_sum_nest
    using assms by (simp add: t i split: sum.splits)
qed



lemma batchLoop_runBatch_cases:
  assumes "seqStmt stmt"
  shows "length arguments = n \<Longrightarrow> n < BATCHSIZE \<Longrightarrow>
    (case batchLoop (runBatch e tmpl stmt) mk qs arguments n st of
       Inl x \<Rightarrow> Inl x
     | Inr (arguments1, n1, st1) \<Rightarrow> runBatch e tmpl stmt arguments1 n1 st1)
    \<in> {runAll stmt (arguments @ map mk qs) st, Inl Panicked}"
proof (induction qs arbitrary: arguments n st)
  case Nil
  then show ?case using assms
    by (cases arguments) (auto simp: runBatch_def runAll_def seqStmt_def)
next
  case (Cons q qs)
  show ?case
  proof (cases "Suc n = BATCHSIZE")
    case True
    have full: "runBatch e tmpl stmt (arguments @ [mk q]) (Suc n) st = runAll stmt (arguments @ [mk q]) st"
      using True by (simp add: runBatch_def runAll_def)
    show ?thesis
    proof (cases "stmt (snd st) (arguments @ [mk q])")
      case (Inl err)
      then have "stmt (snd st) ((arguments @ [mk q]) @ map mk qs) = Inl err"
        using assms(1) unfolding seqStmt_def by (metis old.sum.simps(5))
      then show ?thesis using True Inl full by (simp add: runAll_def)
    next
      case (Inr p)
      obtain db1 out1 where p: "p = (db1, out1)" by (cases p)
      have st1: "runBatch e tmpl stmt (arguments @ [mk q]) (Suc n) st = Inr (tally (fst st) out1, db1)"
        using full Inr p by (simp add: runAll_def)
      have "0 < BATCHSIZE" by (simp add: BATCHSIZE_def)
      then have ih: "(case batchLoop (runBatch e tmpl stmt) mk qs [] 0 (tally (fst st) out1, db1) of
           Inl x \<Rightarrow> Inl x
         | Inr (arguments1, n1, st1) \<Rightarrow> runBatch e tmpl stmt arguments1 n1 st1)
        \<in> {runAll stmt ([] @ map mk qs) (tally (fst st) out1, db1), Inl Panicked}"
        by (intro Cons.IH) auto
      have "stmt (snd st) ((arguments @ [mk q]) @ map mk qs) =
         (case stmt db1 (map mk qs) of Inl e \<Rightarrow> Inl e | Inr (db2, out2) \<Rightarrow> Inr (db2, out1 @ out2))"
        using assms(1) Inr p unfolding seqStmt_def by (metis (mono_tags, lifting) old.sum.simps(6) old.prod.case)
      then have "runAll stmt ((arguments @ [mk q]) @ map mk qs) st
          = runAll stmt (map mk qs) (tally (fst st) out1, db1)"
        by (auto simp: runAll_def tally_append split: sum.splits prod.splits)
      then show ?thesis using True st1 ih by (simp add: Let_def)
    qed
  next
    case False
    then have "Suc n < BATCHSIZE" using Cons.prems by simp
    then have "(case batchLoop (runBatch e tmpl stmt) mk qs (arguments @ [mk q]) (Suc n) st of
           Inl x \<Rightarrow> Inl x
         | Inr (arguments1, n1, st1) \<Rightarrow> runBatch e tmpl stmt arguments1 n1 st1)
        \<in> {runAll stmt ((arguments @ [mk q]) @ map mk qs) st, Inl Panicked}"
      using Cons.prems by (intro Cons.IH) auto
    then show ?thesis using False by (simp add: Let_def)
  qed
qed

lemma Update_cases:
  assumes "\<not> beginTx_fails e" and "\<not> prepare_fails e TupleStmt BATCHSIZE"
    and "\<not> prepare_fails e IndividualStmt BATCHSIZE"
  shows "Update e Reverse ToTS db ar = (Panicked, db) \<or>
     Update e Reverse ToTS db ar =
     (case runRows e Reverse ToTS db ar of
        Inl x \<Rightarrow> (x, db)
      | Inr (result1, db1) \<Rightarrow>
          if commit_fails e then (Returned result1 (Some CommitError), db)
          else (Returned result1 None, db1))"
proof -
  let ?r0 = "\<lparr>Inserted = 0, Updated = 0\<rparr>"
  let ?T = "(case batchLoop (runBatch e TupleStmt (queryTuples e)) (tupleArguments Reverse ToTS)
               (Tuples ar) [] 0 (?r0, db) of
             Inl x \<Rightarrow> Inl x
           | Inr (arguments1, n1, st1) \<Rightarrow> runBatch e TupleStmt (queryTuples e) arguments1 n1 st1)"
  let ?I = "\<lambda>st. (case batchLoop (runBatch e IndividualStmt queryIndividual)
               (individualArguments Reverse ToTS) (Individual ar) [] 0 st of
             Inl x \<Rightarrow> Inl x
           | Inr (arguments1, n1, st1) \<Rightarrow> runBatch e IndividualStmt queryIndividual arguments1 n1 st1)"
  have t: "?T \<in> {runAll (queryTuples e) ([] @ map (tupleArguments Reverse ToTS) (Tuples ar)) (?r0, db), Inl Panicked}"
    by (intro batchLoop_runBatch_cases seqStmt_queryTuples) (auto simp: BATCHSIZE_pos)
  have i: "?I st \<in> {runAll queryIndividual ([] @ map (individualArguments Reverse ToTS) (Individual ar)) st, Inl Panicked}"
    for st
    by (intro batchLoop_runBatch_cases seqStmt_queryIndividual) (auto simp: BATCHSIZE_pos)
  have U: "Update e Reverse ToTS db ar =
     (case ?T of Inl x \<Rightarrow> (x, db)
      | Inr st1 \<Rightarrow> (case ?I st1 of Inl x \<Rightarrow> (x, db)
          | Inr (result1, db1) \<Rightarrow>
          if commit_fails e then (Returned result1 (Some CommitError), db)
          else (Returned result1 None, db1)))"
    unfolding Update_def Let_def case_sum_nest using assms by simp
  show ?thesis
  proof (cases "?T = Inl Panicked")
    case True
    then show ?thesis unfolding U by simp
  next
    case False
    then have T: "?T = runAll (queryTuples e) (map (tupleArguments Reverse ToTS) (Tuples ar)) (?r0, db)"
      using t by auto
    show ?thesis
    proof (cases "runAll (queryTuples e) (map (tupleArguments Reverse ToTS) (Tuples ar)) (?r0, db)")
      case (Inl x)
      then show ?thesis unfolding U T runRows_def by simp
    next
      case (Inr st1)
      show ?thesis
      proof (cases "?I st1 = Inl Panicked")
        case True
        then show ?thesis unfolding U T Inr by simp
      next
        case False
        then have "?I st1 = runAll queryIndividual (map (individualArguments Reverse ToTS) (Individual ar)) st1"
          using i [of st1] by auto
        then show ?thesis unfolding U T runRows_def Inr by simp
      qed
    qed
  qed
qed

lemma call_update_tuples_dom:
  "call_update_tuples e tab x = Inr (tab1, ch) \<Longrightarrow> dom tab1 = insert (tupleKey x) (dom tab)"
  by (auto simp: call_update_tuples_def tupleKey_def update_tuples_eq
           split: prod.splits option.splits if_splits)

lemma call_update_individual_dom:
  "call_update_individual tab x = Inr (tab1, ch) \<Longrightarrow> dom tab1 = insert (individualKey x) (dom tab)"
  by (auto simp: call_update_individual_def individualKey_def update_individual_eq
           split: prod.splits option.splits if_splits)

lemma selectBatch_dom:
  assumes "\<And>tab x tab1 ch. call tab x = Inr (tab1, ch) \<Longrightarrow> dom tab1 = insert (key x) (dom tab)"
  shows "selectBatch call tab xs = Inr (tab1, out) \<Longrightarrow> dom tab1 = dom tab \<union> key ` set xs"
proof (induction xs arbitrary: tab tab1 out)
  case Nil
  then show ?case by simp
next
  case (Cons x xs)
  from Cons.prems obtain t1 ch t2 out2 where
    c: "call tab x = Inr (t1, ch)" and r: "selectBatch call t1 xs = Inr (t2, out2)" and e: "tab1 = t2"
    by (auto split: sum.splits prod.splits)
  show ?case using assms [OF c] Cons.IH [OF r] e by auto
qed

lemma runRows_dom:
  assumes "runRows e Reverse ToTS db ar = Inr (res, db1)"
  shows "dom (tuples db1) = dom (tuples db) \<union> (\<lambda>q. tupleKey (tupleArguments Reverse ToTS q)) ` set (Tuples ar)"
    and "dom (individual db1) = dom (individual db) \<union> (\<lambda>q. individualKey (individualArguments Reverse ToTS q)) ` set (Individual ar)"
proof -
  from assms obtain tab1 out1 tab2 out2 where
    a: "selectBatch (call_update_tuples e) (tuples db) (map (tupleArguments Reverse ToTS) (Tuples ar)) = Inr (tab1, out1)"
    and b: "selectBatch call_update_individual (individual db) (map (individualArguments Reverse ToTS) (Individual ar)) = Inr (tab2, out2)"
    and c: "db1 = db\<lparr>tuples := tab1, individual := tab2\<rparr>"
    by (auto simp: runRows_def runAll_def queryTuples_def queryIndividual_def split: sum.splits prod.splits)
  show "dom (tuples db1) = dom (tuples db) \<union> (\<lambda>q. tupleKey (tupleArguments Reverse ToTS q)) ` set (Tuples ar)"
    using selectBatch_dom [of "call_update_tuples e" tupleKey, OF call_update_tuples_dom a] c
    by (simp add: image_image)
  show "dom (individual db1) = dom (individual db) \<union> (\<lambda>q. individualKey (individualArguments Reverse ToTS q)) ` set (Individual ar)"
    using selectBatch_dom [of call_update_individual individualKey, OF call_update_individual_dom b] c
    by (simp add: image_image)
qed

lemma runRows_Inl: "runRows e Reverse ToTS db ar = Inl x \<Longrightarrow> x = Exited"
  by (auto simp: runRows_def runAll_def split: sum.splits prod.splits)

lemma Update_two_rows:
  assumes env: "\<not> beginTx_fails e" "\<forall>k n. \<not> prepare_fails e k n" "\<not> commit_fails e"
    and rows: "Tuples ar = [(k, st1), (k, st2)]" "Individual ar = []"
    and deltas: "count st1 = 3" "count st2 = 4"
    and ttls: "int4in e (ttl st1) = Some t1" "int4in e (ttl st2) = Some t2"
    and old: "old = (case tuples db (Reverse (u_query k), u_qtype k, u_answer k) of
                       None \<Rightarrow> 0 | Some row \<Rightarrow> t_count row)"
    and range: "int8_ok (old + 3)" "int8_ok (old + 7)"
  shows "\<exists>res db1 row. Update e Reverse ToTS db ar = (Returned res None, db1)
           \<and> tuples db1 (Reverse (u_query k), u_qtype k, u_answer k) = Some row
           \<and> t_count row = old + 7"
proof -
  have u3: "uint (3 :: 64 word) = 3" and u4: "uint (4 :: 64 word) = 4" by simp_all
  have r7: "int8_ok (7 + old)" using range(2) by (simp add: add.commute)
  show ?thesis
    unfolding Update_eq [OF env(1,2)]
    using env(3) rows deltas ttls old range r7
    by (cases "tuples db (Reverse (u_query k), u_qtype k, u_answer k)")
       (simp_all add: runRows_def runAll_def queryTuples_def queryIndividual_def
          tupleArguments_def call_update_tuples_def update_tuples_eq int4_ok_def u3 u4)
qed


lemma Update_setup_failure:
  assumes "beginTx_fails e \<or> prepare_fails e TupleStmt BATCHSIZE
             \<or> prepare_fails e IndividualStmt BATCHSIZE"
  shows "\<exists>err. Update e Reverse ToTS db ar
           = (Returned \<lparr>Inserted = 0, Updated = 0\<rparr> (Some err), db)"
  using assms by (auto simp: Update_def Let_def)

lemmas store_defs =
  runRows_def runAll_def queryTuples_def queryIndividual_def tupleArguments_def
  individualArguments_def call_update_tuples_def call_update_individual_def
  update_tuples_eq update_individual_eq int4_ok_def int8_ok_def plain_env_def
  decimal_int4_def Let_def

subsection \<open>Reversed queries in the store\<close>

text \<open>
  C9: when \<open>Update\<close> has returned without an error, the keys of the \<open>tuples\<close> table are
  those it had before and, for every tuple of the snapshot, the key made of the reversed
  query, the type and the answer as they are; the keys of the \<open>individual\<close> table are
  those it had before and, for every individual entry, its role with the reversed value
  if the role is \<open>Q\<close> and with the value as it is otherwise.
\<close>

theorem Update_stores_reversed_queries:
  assumes "Update e Reverse ToTS db ar = (Returned res None, db1)"
  shows "dom (tuples db1) = dom (tuples db) \<union>
           (\<lambda>q. (Reverse (u_query (fst q)), u_qtype (fst q), u_answer (fst q))) ` set (Tuples ar)
       \<and> dom (individual db1) = dom (individual db) \<union>
           (\<lambda>q. (u_which (fst q),
                 if u_which (fst q) = ''Q'' then Reverse (u_value (fst q)) else u_value (fst q)))
             ` set (Individual ar)"
proof -
  have pre: "\<not> beginTx_fails e" "\<not> prepare_fails e TupleStmt BATCHSIZE"
    "\<not> prepare_fails e IndividualStmt BATCHSIZE"
    using assms by (auto simp: Update_def Let_def split: if_splits)
  from Update_cases [OF pre, of Reverse ToTS db ar] assms
  have "runRows e Reverse ToTS db ar = Inr (res, db1)"
    by (auto split: sum.splits prod.splits if_splits dest: runRows_Inl)
  from runRows_dom [OF this] show ?thesis
    by (simp add: tupleKey_def tupleArguments_def individualKey_def individualArguments_def Let_def)
qed

text \<open>The theorem at a snapshot of one tuple, its query and its answer.\<close>

theorem Update_stores_reversed_queries_witness:
  "\<exists>res db1.
     Update plain_env rev (\<lambda>x. \<lfloor>x\<rfloor>) \<lparr>tuples = Map.empty, individual = Map.empty\<rparr>
       \<lparr>TotalRecords = 1, SkippedRecords = 0,
        Tuples = [(\<lparr>u_query = ''ab.c'', u_answer = ''1.2.3.4'', u_qtype = ''A''\<rparr>,
                   \<lparr>count = 1, first = 7, last' = 7, ttl = ''60''\<rparr>)],
        TuplesLen = 1,
        Individual = [(\<lparr>u_value = ''ab.c'', u_which = ''Q''\<rparr>,
                       \<lparr>count = 1, first = 7, last' = 7, ttl = []\<rparr>),
                      (\<lparr>u_value = ''1.2.3.4'', u_which = ''A''\<rparr>,
                       \<lparr>count = 1, first = 7, last' = 7, ttl = ''60''\<rparr>)],
        IndividualLen = 2\<rparr> = (Returned res None, db1)
     \<and> dom (tuples db1) = {(''c.ba'', ''A'', ''1.2.3.4'')}
     \<and> dom (individual db1) = {(''Q'', ''c.ba''), (''A'', ''1.2.3.4'')}"
proof -
  let ?db = "\<lparr>tuples = Map.empty, individual = Map.empty\<rparr>"
  let ?ar = "\<lparr>TotalRecords = 1, SkippedRecords = 0,
        Tuples = [(\<lparr>u_query = ''ab.c'', u_answer = ''1.2.3.4'', u_qtype = ''A''\<rparr>,
                   \<lparr>count = 1, first = 7, last' = 7, ttl = ''60''\<rparr>)],
        TuplesLen = 1,
        Individual = [(\<lparr>u_value = ''ab.c'', u_which = ''Q''\<rparr>,
                       \<lparr>count = 1, first = 7, last' = 7, ttl = []\<rparr>),
                      (\<lparr>u_value = ''1.2.3.4'', u_which = ''A''\<rparr>,
                       \<lparr>count = 1, first = 7, last' = 7, ttl = ''60''\<rparr>)],
        IndividualLen = 2\<rparr>"
  have env: "\<not> beginTx_fails plain_env" "\<forall>k n. \<not> prepare_fails plain_env k n"
    by (simp_all add: plain_env_def)
  obtain res db1 where
    u: "Update plain_env rev (\<lambda>x. \<lfloor>x\<rfloor>) ?db ?ar = (Returned res None, db1)"
    unfolding Update_eq [OF env] by (simp add: store_defs)
  from Update_stores_reversed_queries [OF u] have
    d: "dom (tuples db1) = {(''c.ba'', ''A'', ''1.2.3.4'')}
     \<and> dom (individual db1) = {(''Q'', ''c.ba''), (''A'', ''1.2.3.4'')}"
    by simp
  show ?thesis
    by (rule exI [of _ res], rule exI [of _ db1]) (rule conjI [OF u d])
qed


subsection \<open>An execution error inside a batch\<close>

text \<open>
  C8, the claim at a snapshot whose one tuple has a TTL that does not fit the
  \<open>integer\<close> parameter of the procedure: the statement fails, and \<open>Update\<close> does not
  return the failure to its caller; \<open>log.Fatal\<close> ends the process.
\<close>

theorem Update_batch_error_counterexample:
  "Update plain_env rev (\<lambda>x. \<lfloor>x\<rfloor>) \<lparr>tuples = Map.empty, individual = Map.empty\<rparr>
     \<lparr>TotalRecords = 1, SkippedRecords = 0,
      Tuples = [(\<lparr>u_query = ''ab.c'', u_answer = ''1.2.3.4'', u_qtype = ''A''\<rparr>,
                 \<lparr>count = 1, first = 7, last' = 7, ttl = ''4294967295''\<rparr>)],
      TuplesLen = 1, Individual = [], IndividualLen = 0\<rparr>
   = (Exited, \<lparr>tuples = Map.empty, individual = Map.empty\<rparr>)"
  by (simp add: Update_def runBatch_def BATCHSIZE_def store_defs)

text \<open>
  C8 as the code has it: when no \<open>BeginTx\<close> and no \<open>Prepare\<close> fails and running the rows
  of the snapshot meets an execution error, \<open>Update\<close> ends the process; it returns
  nothing, \<open>Commit\<close> is not reached and the database is as it was before the call.
\<close>

theorem Update_batch_error_exits:
  assumes "\<not> beginTx_fails e" and "\<forall>k n. \<not> prepare_fails e k n"
    and "runRows e Reverse ToTS db ar = Inl x"
  shows "Update e Reverse ToTS db ar = (Exited, db)"
proof -
  have "x = Exited" using assms(3) by (rule runRows_Inl)
  then show ?thesis using Update_eq [OF assms(1,2), of Reverse ToTS db ar] assms(3) by simp
qed

text \<open>
  The theorem at a stored count that is the largest \<open>bigint\<close>: adding to it is an
  execution error.
\<close>

theorem Update_batch_error_exits_witness:
  "\<not> beginTx_fails plain_env \<and> (\<forall>k n. \<not> prepare_fails plain_env k n)
   \<and> runRows plain_env rev (\<lambda>x. \<lfloor>x\<rfloor>)
        \<lparr>tuples = [(''c.ba'', ''A'', ''1.2.3.4'') \<mapsto>
                     \<lparr>t_count = 9223372036854775807, t_ttl = 60, t_first = 1, t_last = 2\<rparr>],
         individual = Map.empty\<rparr>
        \<lparr>TotalRecords = 1, SkippedRecords = 0,
         Tuples = [(\<lparr>u_query = ''ab.c'', u_answer = ''1.2.3.4'', u_qtype = ''A''\<rparr>,
                    \<lparr>count = 1, first = 7, last' = 7, ttl = ''60''\<rparr>)],
         TuplesLen = 1, Individual = [], IndividualLen = 0\<rparr> = Inl Exited
   \<and> Update plain_env rev (\<lambda>x. \<lfloor>x\<rfloor>)
        \<lparr>tuples = [(''c.ba'', ''A'', ''1.2.3.4'') \<mapsto>
                     \<lparr>t_count = 9223372036854775807, t_ttl = 60, t_first = 1, t_last = 2\<rparr>],
         individual = Map.empty\<rparr>
        \<lparr>TotalRecords = 1, SkippedRecords = 0,
         Tuples = [(\<lparr>u_query = ''ab.c'', u_answer = ''1.2.3.4'', u_qtype = ''A''\<rparr>,
                    \<lparr>count = 1, first = 7, last' = 7, ttl = ''60''\<rparr>)],
         TuplesLen = 1, Individual = [], IndividualLen = 0\<rparr>
      = (Exited,
         \<lparr>tuples = [(''c.ba'', ''A'', ''1.2.3.4'') \<mapsto>
                     \<lparr>t_count = 9223372036854775807, t_ttl = 60, t_first = 1, t_last = 2\<rparr>],
          individual = Map.empty\<rparr>)"
proof -
  let ?db = "\<lparr>tuples = [(''c.ba'', ''A'', ''1.2.3.4'') \<mapsto>
                     \<lparr>t_count = 9223372036854775807, t_ttl = 60, t_first = 1, t_last = 2\<rparr>],
         individual = Map.empty\<rparr>"
  let ?ar = "\<lparr>TotalRecords = 1, SkippedRecords = 0,
         Tuples = [(\<lparr>u_query = ''ab.c'', u_answer = ''1.2.3.4'', u_qtype = ''A''\<rparr>,
                    \<lparr>count = 1, first = 7, last' = 7, ttl = ''60''\<rparr>)],
         TuplesLen = 1, Individual = [], IndividualLen = 0\<rparr>"
  have env: "\<not> beginTx_fails plain_env" "\<forall>k n. \<not> prepare_fails plain_env k n"
    by (simp_all add: plain_env_def)
  have r: "runRows plain_env rev (\<lambda>x. \<lfloor>x\<rfloor>) ?db ?ar = Inl Exited"
    by (simp add: store_defs)
  from Update_batch_error_exits [OF env r] env r show ?thesis by simp
qed


subsection \<open>The upsert procedures and the combine rule\<close>

text \<open>A call that succeeds has applied the combine rule to the row of its entry.\<close>

lemma call_update_tuples_Inr:
  assumes "call_update_tuples e tab (tupleArguments Reverse ToTS (k, y)) = Inr (tab1, ch)"
  shows "\<exists>new. rowOfTuple e ToTS y = Some new
           \<and> tab1 = upsert_spec combineTuples_spec (tupleStoreKey Reverse k) new tab
           \<and> countFits (map_option t_count (tab (tupleStoreKey Reverse k))) (t_count new)"
  using assms
  by (auto simp: call_update_tuples_def tupleArguments_def update_tuples_eq rowOfTuple_def
        upsert_spec_def combineTuples_spec_def tupleStoreKey_def countFits_def
        min.commute max.commute
      split: option.splits if_splits)

lemma call_update_individual_Inr:
  assumes "call_update_individual tab (individualArguments Reverse ToTS (k, y)) = Inr (tab1, ch)"
  shows "\<exists>new. rowOfIndividual ToTS y = Some new
           \<and> tab1 = upsert_spec combineIndividual_spec (individualStoreKey Reverse k) new tab
           \<and> countFits (map_option i_count (tab (individualStoreKey Reverse k))) (i_count new)"
  using assms
  by (auto simp: call_update_individual_def individualArguments_def update_individual_eq
        rowOfIndividual_def upsert_spec_def combineIndividual_spec_def individualStoreKey_def
        countFits_def min.commute max.commute Let_def
      split: option.splits if_splits)


text \<open>A batch statement that succeeds: the table after it, as a whole and key by key.\<close>

lemma selectBatch_fold:
  assumes "\<And>tab x tab1 ch. call tab (mk x) = Inr (tab1, ch) \<Longrightarrow> tab1 = step x tab"
  shows "selectBatch call tab (map mk xs) = Inr (tab1, out) \<Longrightarrow> tab1 = fold step xs tab"
proof (induction xs arbitrary: tab tab1 out)
  case Nil
  then show ?case by simp
next
  case (Cons x xs)
  from Cons.prems obtain t1 ch t2 out2 where
    c: "call tab (mk x) = Inr (t1, ch)" and r: "selectBatch call t1 (map mk xs) = Inr (t2, out2)"
    and e: "tab1 = t2"
    by (auto split: sum.splits prod.splits)
  show ?case using assms [OF c] Cons.IH [OF r] e by simp
qed

lemma selectBatch_rows:
  assumes "\<And>tab x tab1 ch. call tab (mk x) = Inr (tab1, ch) \<Longrightarrow> P x"
  shows "selectBatch call tab (map mk xs) = Inr (tab1, out) \<Longrightarrow> list_all P xs"
proof (induction xs arbitrary: tab tab1 out)
  case Nil
  then show ?case by simp
next
  case (Cons x xs)
  from Cons.prems obtain t1 ch t2 out2 where
    c: "call tab (mk x) = Inr (t1, ch)" and r: "selectBatch call t1 (map mk xs) = Inr (t2, out2)"
    by (auto split: sum.splits prod.splits)
  show ?case using assms [OF c] Cons.IH [OF r] by simp
qed

lemma selectBatch_at:
  assumes call: "\<And>tab k y tab1 ch. call tab (mk (k, y)) = Inr (tab1, ch) \<Longrightarrow>
      \<exists>new. rowOf y = Some new \<and> tab1 = upsert_spec c (K k) new tab
        \<and> countFits (map_option cnt (tab (K k))) (cnt new)"
    and inj: "inj K"
  shows "distinct (map fst qs) \<Longrightarrow> selectBatch call tab (map mk qs) = Inr (tab1, out) \<Longrightarrow>
     (case map_of qs k of
        None \<Rightarrow> tab1 (K k) = tab (K k)
      | Some y \<Rightarrow>
          (\<exists>new. rowOf y = Some new
             \<and> tab1 (K k) = Some (case tab (K k) of None \<Rightarrow> new | Some old \<Rightarrow> c old new)
             \<and> countFits (map_option cnt (tab (K k))) (cnt new)))"
proof (induction qs arbitrary: tab tab1 out)
  case Nil
  then show ?case by simp
next
  case (Cons q qs)
  obtain k0 y0 where q: "q = (k0, y0)" by (cases q)
  from Cons.prems(2) obtain t1 ch t2 out2 where
    c: "call tab (mk (k0, y0)) = Inr (t1, ch)"
    and r: "selectBatch call t1 (map mk qs) = Inr (t2, out2)"
    and e: "tab1 = t2"
    unfolding q by (auto split: sum.splits prod.splits)
  from call [OF c] obtain new where
    n: "rowOf y0 = Some new" and t1: "t1 = upsert_spec c (K k0) new tab"
    and f: "countFits (map_option cnt (tab (K k0))) (cnt new)"
    by blast
  have d: "distinct (map fst qs)" and notin: "k0 \<notin> fst ` set qs"
    using Cons.prems(1) unfolding q by simp_all
  note ih = Cons.IH [OF d r, folded e]
  show ?case
  proof (cases "k = k0")
    case True
    have "map_of qs k = None" using notin True by (simp add: map_of_eq_None_iff)
    then have "tab1 (K k) = t1 (K k)" using ih by simp
    then show ?thesis using True n f unfolding q t1 by (simp add: upsert_spec_def)
  next
    case False
    then have "K k \<noteq> K k0" using inj by (auto dest: injD)
    then have eq: "t1 (K k) = tab (K k)" unfolding t1 by (simp add: upsert_spec_def)
    have m: "map_of (q # qs) k = map_of qs k" using False unfolding q by simp
    show ?thesis unfolding m using ih [unfolded eq] .
  qed
qed

lemma inj_tupleStoreKey:
  assumes "inj Reverse"
  shows "inj (tupleStoreKey Reverse)"
proof (rule injI)
  fix x y :: uniqueTuple
  assume "tupleStoreKey Reverse x = tupleStoreKey Reverse y"
  then have "Reverse (u_query x) = Reverse (u_query y)" and t: "u_qtype x = u_qtype y"
    and a: "u_answer x = u_answer y"
    by (simp_all add: tupleStoreKey_def)
  then have "u_query x = u_query y" using assms by (simp add: inj_eq)
  then show "x = y" using a t by (rule uniqueTuple.equality) simp
qed

lemma inj_individualStoreKey:
  assumes "inj Reverse"
  shows "inj (individualStoreKey Reverse)"
proof (rule injI)
  fix x y :: uniqueIndividual
  assume k: "individualStoreKey Reverse x = individualStoreKey Reverse y"
  then have w: "u_which x = u_which y" by (simp add: individualStoreKey_def)
  have "u_value x = u_value y"
  proof (cases "u_which x = ''Q''")
    case True
    then have "Reverse (u_value x) = Reverse (u_value y)"
      using k w by (simp add: individualStoreKey_def)
    then show ?thesis using assms by (simp add: inj_eq)
  next
    case False
    then show ?thesis using k w by (simp add: individualStoreKey_def)
  qed
  then show "x = y" using w by (rule uniqueIndividual.equality) simp
qed

text \<open>
  The row of a combined statistic is the combination of the rows, when the sum of the
  counts is a \<open>bigint\<close> and the conversion of timestamps keeps their order.
\<close>

lemma rowOfTuple_combine:
  assumes "mono ToTS" and "rowOfTuple e ToTS x = Some old" and "rowOfTuple e ToTS y = Some new"
    and "int8_ok (t_count old + t_count new)"
  shows "rowOfTuple e ToTS (combine_spec x y) = Some (combineTuples_spec old new)"
proof -
  have c: "t_count old = uint (count x)" "t_count new = uint (count y)"
    using assms(2,3) by (auto simp: rowOfTuple_def split: option.splits)
  have "uint (count x) + uint (count y) < 2 ^ 63" using assms(4) c by (simp add: int8_ok_def)
  then have "uint (count x) + uint (count y) < 2 ^ LENGTH(64)" by simp
  then have u: "uint (count x + count y) = uint (count x) + uint (count y)"
    by (simp only: uint_add_lem)
  show ?thesis using assms(2,3) u
    by (auto simp: rowOfTuple_def combine_spec_def combineTuples_spec_def
          min_of_mono [OF assms(1)] max_of_mono [OF assms(1)] split: option.splits)
qed

lemma rowOfIndividual_combine:
  assumes "mono ToTS" and "rowOfIndividual ToTS x = Some old" and "rowOfIndividual ToTS y = Some new"
    and "int8_ok (i_count old + i_count new)"
  shows "rowOfIndividual ToTS (combine_spec x y) = Some (combineIndividual_spec old new)"
proof -
  have c: "i_count old = uint (count x)" "i_count new = uint (count y)"
    using assms(2,3) by (auto simp: rowOfIndividual_def)
  have "uint (count x) + uint (count y) < 2 ^ 63" using assms(4) c by (simp add: int8_ok_def)
  then have "uint (count x) + uint (count y) < 2 ^ LENGTH(64)" by simp
  then have u: "uint (count x + count y) = uint (count x) + uint (count y)"
    by (simp only: uint_add_lem)
  show ?thesis using assms(2,3) u
    by (auto simp: rowOfIndividual_def combine_spec_def combineIndividual_spec_def
          min_of_mono [OF assms(1)] max_of_mono [OF assms(1)])
qed

lemma holdsRow_merge:
  assumes h: "holdsRow rowOf (A k) old"
    and b: "case B k of
        None \<Rightarrow> new = old
      | Some y \<Rightarrow>
          (\<exists>r. rowOf y = Some r
             \<and> new = Some (case old of None \<Rightarrow> r | Some ol \<Rightarrow> c ol r)
             \<and> countFits (map_option cnt old) (cnt r))"
    and comb: "\<And>x y ol r. rowOf x = Some ol \<Longrightarrow> rowOf y = Some r \<Longrightarrow> int8_ok (cnt ol + cnt r)
        \<Longrightarrow> rowOf (combine_spec x y) = Some (c ol r)"
  shows "holdsRow rowOf (merge_spec A B k) new"
proof (cases "B k")
  case None
  then show ?thesis using h b by (simp add: merge_spec_def)
next
  case (Some y)
  then obtain r where r: "rowOf y = Some r"
    and n: "new = Some (case old of None \<Rightarrow> r | Some ol \<Rightarrow> c ol r)"
    and f: "countFits (map_option cnt old) (cnt r)"
    using b by auto
  show ?thesis
  proof (cases "A k")
    case None
    then have "old = None" using h by simp
    then show ?thesis using None Some r n by (simp add: merge_spec_def)
  next
    case (Some x)
    then obtain ol where oo: "old = Some ol" and x: "rowOf x = Some ol"
      using h by (cases old) auto
    have "int8_ok (cnt ol + cnt r)" using f oo by (simp add: countFits_def)
    from comb [OF x r this] show ?thesis
      using Some \<open>B k = Some y\<close> n oo by (simp add: merge_spec_def)
  qed
qed

text \<open>\<open>Update\<close> when it returns without an error.\<close>

lemma Update_Returned_runRows:
  assumes "Update e Reverse ToTS db ar = (Returned res None, db1)"
  shows "runRows e Reverse ToTS db ar = Inr (res, db1)"
proof -
  have pre: "\<not> beginTx_fails e" "\<not> prepare_fails e TupleStmt BATCHSIZE"
    "\<not> prepare_fails e IndividualStmt BATCHSIZE"
    using assms by (auto simp: Update_def Let_def split: if_splits)
  from Update_cases [OF pre, of Reverse ToTS db ar] assms
  show ?thesis
    by (auto split: sum.splits prod.splits if_splits dest: runRows_Inl)
qed

lemma runRows_selectBatch:
  assumes "runRows e Reverse ToTS db ar = Inr (res, db1)"
  shows "\<exists>out1 out2.
      selectBatch (call_update_tuples e) (tuples db)
        (map (tupleArguments Reverse ToTS) (Tuples ar)) = Inr (tuples db1, out1)
    \<and> selectBatch call_update_individual (individual db)
        (map (individualArguments Reverse ToTS) (Individual ar)) = Inr (individual db1, out2)"
  using assms
  by (auto simp: runRows_def runAll_def queryTuples_def queryIndividual_def
      split: sum.splits prod.splits)

lemma Update_fold:
  assumes "Update e Reverse ToTS db ar = (Returned res None, db1)"
  shows "tuples db1 = fold (storeTuple_spec e Reverse ToTS) (Tuples ar) (tuples db)"
    and "individual db1 = fold (storeIndividual_spec Reverse ToTS) (Individual ar) (individual db)"
    and "list_all (\<lambda>q. rowOfTuple e ToTS (snd q) \<noteq> None) (Tuples ar)"
proof -
  from runRows_selectBatch [OF Update_Returned_runRows [OF assms]] obtain out1 out2 where
    a: "selectBatch (call_update_tuples e) (tuples db)
        (map (tupleArguments Reverse ToTS) (Tuples ar)) = Inr (tuples db1, out1)"
    and b: "selectBatch call_update_individual (individual db)
        (map (individualArguments Reverse ToTS) (Individual ar)) = Inr (individual db1, out2)"
    by blast
  have st: "tab1 = storeTuple_spec e Reverse ToTS x tab"
    if "call_update_tuples e tab (tupleArguments Reverse ToTS x) = Inr (tab1, ch)"
    for tab x tab1 ch
    using call_update_tuples_Inr [of e tab Reverse ToTS "fst x" "snd x" tab1 ch] that
    by (auto simp: storeTuple_spec_def)
  have si: "tab1 = storeIndividual_spec Reverse ToTS x tab"
    if "call_update_individual tab (individualArguments Reverse ToTS x) = Inr (tab1, ch)"
    for tab x tab1 ch
    using call_update_individual_Inr [of tab Reverse ToTS "fst x" "snd x" tab1 ch] that
    by (auto simp: storeIndividual_spec_def)
  show "tuples db1 = fold (storeTuple_spec e Reverse ToTS) (Tuples ar) (tuples db)"
    using st a by (rule selectBatch_fold)
  show "individual db1 = fold (storeIndividual_spec Reverse ToTS) (Individual ar) (individual db)"
    using si b by (rule selectBatch_fold)
  have sr: "rowOfTuple e ToTS (snd x) \<noteq> None"
    if "call_update_tuples e tab (tupleArguments Reverse ToTS x) = Inr (tab1, ch)"
    for tab x tab1 ch
    using call_update_tuples_Inr [of e tab Reverse ToTS "fst x" "snd x" tab1 ch] that
    by auto
  show "list_all (\<lambda>q. rowOfTuple e ToTS (snd q) \<noteq> None) (Tuples ar)"
    using sr a by (rule selectBatch_rows)
qed

lemma map_of_deref:
  "map_of (map (\<lambda>(q, stat). (q, s ! stat)) m) k = map_option (\<lambda>a. s ! a) (map_of m k)"
  by (induction m) auto

lemma map_of_GetResult:
  "map_of (Tuples (GetResult s d)) k = statOf s (queries d) k"
  "map_of (Individual (GetResult s d)) v = statOf s (vals d) v"
  by (simp_all add: GetResult_def Let_def statOf_def map_of_deref)

lemma map_fst_GetResult:
  "map fst (Tuples (GetResult s d)) = map fst (queries d)"
  "map fst (Individual (GetResult s d)) = map fst (vals d)"
  by (simp_all add: GetResult_def Let_def split_def comp_def)

lemma Update_simulates_Merge:
  assumes wf: "wellFormed s A" "wellFormed s B" and sep: "separate A B"
    and m: "Merge s A B = (s1, AB)"
    and inj: "inj Reverse" and mono: "mono ToTS"
    and u: "Update e Reverse ToTS db (GetResult s B) = (Returned res None, db1)"
  shows "holdsRow (rowOfTuple e ToTS) (statOf s (queries A) k) (tuples db (tupleStoreKey Reverse k))
      \<Longrightarrow> holdsRow (rowOfTuple e ToTS) (statOf s1 (queries AB) k)
            (tuples db1 (tupleStoreKey Reverse k))"
    and "holdsRow (rowOfIndividual ToTS) (statOf s (vals A) v) (individual db (individualStoreKey Reverse v))
      \<Longrightarrow> holdsRow (rowOfIndividual ToTS) (statOf s1 (vals AB) v)
            (individual db1 (individualStoreKey Reverse v))"
proof -
  note mr = Merge_refines [OF wf sep m]
  have q: "statOf s1 (queries AB) = merge_spec (statOf s (queries A)) (statOf s (queries B))"
    using mr [THEN conjunct2, THEN conjunct1] .
  have vv: "statOf s1 (vals AB) = merge_spec (statOf s (vals A)) (statOf s (vals B))"
    using mr [THEN conjunct2, THEN conjunct2, THEN conjunct1] .
  have dq: "distinct (map fst (Tuples (GetResult s B)))"
    and dv: "distinct (map fst (Individual (GetResult s B)))"
    using wf(2) by (simp_all add: map_fst_GetResult wellFormed_def)
  from runRows_selectBatch [OF Update_Returned_runRows [OF u]] obtain out1 out2 where
    a: "selectBatch (call_update_tuples e) (tuples db)
        (map (tupleArguments Reverse ToTS) (Tuples (GetResult s B))) = Inr (tuples db1, out1)"
    and b: "selectBatch call_update_individual (individual db)
        (map (individualArguments Reverse ToTS) (Individual (GetResult s B)))
          = Inr (individual db1, out2)"
    by blast
  have at: "case statOf s (queries B) k of
        None \<Rightarrow> tuples db1 (tupleStoreKey Reverse k) = tuples db (tupleStoreKey Reverse k)
      | Some y \<Rightarrow>
          (\<exists>new. rowOfTuple e ToTS y = Some new
             \<and> tuples db1 (tupleStoreKey Reverse k)
                 = Some (case tuples db (tupleStoreKey Reverse k) of
                           None \<Rightarrow> new | Some old \<Rightarrow> combineTuples_spec old new)
             \<and> countFits (map_option t_count (tuples db (tupleStoreKey Reverse k))) (t_count new))"
    unfolding map_of_GetResult(1) [symmetric]
    by (rule selectBatch_at [where call = "call_update_tuples e" and cnt = t_count
          and mk = "tupleArguments Reverse ToTS", OF _ inj_tupleStoreKey [OF inj] dq a])
       (erule call_update_tuples_Inr)
  have ai: "case statOf s (vals B) v of
        None \<Rightarrow> individual db1 (individualStoreKey Reverse v)
                  = individual db (individualStoreKey Reverse v)
      | Some y \<Rightarrow>
          (\<exists>new. rowOfIndividual ToTS y = Some new
             \<and> individual db1 (individualStoreKey Reverse v)
                 = Some (case individual db (individualStoreKey Reverse v) of
                           None \<Rightarrow> new | Some old \<Rightarrow> combineIndividual_spec old new)
             \<and> countFits (map_option i_count (individual db (individualStoreKey Reverse v)))
                 (i_count new))"
    unfolding map_of_GetResult(2) [symmetric]
    by (rule selectBatch_at [where call = call_update_individual and cnt = i_count
          and mk = "individualArguments Reverse ToTS",
          OF _ inj_individualStoreKey [OF inj] dv b])
       (erule call_update_individual_Inr)
  show "holdsRow (rowOfTuple e ToTS) (statOf s1 (queries AB) k)
            (tuples db1 (tupleStoreKey Reverse k))"
    if h: "holdsRow (rowOfTuple e ToTS) (statOf s (queries A) k) (tuples db (tupleStoreKey Reverse k))"
    unfolding q
    by (rule holdsRow_merge [where rowOf = "rowOfTuple e ToTS" and A = "statOf s (queries A)"
          and B = "statOf s (queries B)" and c = combineTuples_spec and cnt = t_count,
          OF h at])
       (rule rowOfTuple_combine [OF mono])
  show "holdsRow (rowOfIndividual ToTS) (statOf s1 (vals AB) v)
            (individual db1 (individualStoreKey Reverse v))"
    if h: "holdsRow (rowOfIndividual ToTS) (statOf s (vals A) v) (individual db (individualStoreKey Reverse v))"
    unfolding vv
    by (rule holdsRow_merge [where rowOf = "rowOfIndividual ToTS" and A = "statOf s (vals A)"
          and B = "statOf s (vals B)" and c = combineIndividual_spec and cnt = i_count,
          OF h ai])
       (rule rowOfIndividual_combine [OF mono])
qed


lemma holdsRow_SomeD: "holdsRow rowOf (Some st) row \<Longrightarrow> row = rowOf st"
  by (cases row) auto

text \<open>
  C7: each procedure, on a key that has a row, adds the given count to the stored one
  (an error outside \<open>bigint\<close>), keeps the smaller \<open>first\<close> and the larger \<open>last\<close>, and for
  tuples overwrites \<open>ttl\<close>, and answers \<open>U\<close>; on a key that has no row it inserts the
  given values and answers \<open>I\<close>. When \<open>Update\<close> has returned without an error, each of
  the two tables is the table before the call with every entry of the snapshot applied
  to it in order by the combine rule, under the reversed key and with the count, TTL
  and timestamps of the entry, and the TTL of every tuple was one the server reads. This
  is the combine of \<open>Merge\<close>: for private aggregators A and B, an injective \<open>Reverse\<close> and
  a monotone \<open>ToTS\<close>, when \<open>Update\<close> has stored the snapshot of B without an error, a
  table that held under a key what A holds now holds under that key what A holds after
  \<open>Merge\<close> of B, for tuples and for individual values.
  And when one call of \<open>Update\<close> submits two rows for the same tuple key with counts 3
  and 4, it returns without error and the stored count of that key has grown by 7 (from 0
  if the key was new).
\<close>

theorem upsert_combine_semantics:
  "update_tuples tab q ty a tt c f l =
     (case tab (q, ty, a) of
        None \<Rightarrow> Inr (tab((q, ty, a) \<mapsto> \<lparr>t_count = c, t_ttl = tt, t_first = f, t_last = l\<rparr>),
                     CHR ''I'')
      | Some row \<Rightarrow>
          if int8_ok (t_count row + c)
          then Inr (tab((q, ty, a) \<mapsto> \<lparr>t_count = t_count row + c, t_ttl = tt,
                                       t_first = min f (t_first row),
                                       t_last = max l (t_last row)\<rparr>), CHR ''U'')
          else Inl numeric_value_out_of_range)
   \<and> update_individual itab w v c f l =
     (case itab (w, v) of
        None \<Rightarrow> Inr (itab((w, v) \<mapsto> \<lparr>i_count = c, i_first = f, i_last = l\<rparr>), CHR ''I'')
      | Some irow \<Rightarrow>
          if int8_ok (i_count irow + c)
          then Inr (itab((w, v) \<mapsto> \<lparr>i_count = i_count irow + c,
                                    i_first = min f (i_first irow),
                                    i_last = max l (i_last irow)\<rparr>), CHR ''U'')
          else Inl numeric_value_out_of_range)
   \<and> (Update e Reverse ToTS db ar = (Returned res None, db1)
      \<longrightarrow> tuples db1 = fold (storeTuple_spec e Reverse ToTS) (Tuples ar) (tuples db)
        \<and> individual db1
            = fold (storeIndividual_spec Reverse ToTS) (Individual ar) (individual db)
        \<and> list_all (\<lambda>q. rowOfTuple e ToTS (snd q) \<noteq> None) (Tuples ar))
   \<and> (wellFormed s A \<and> wellFormed s B \<and> separate A B \<and> Merge s A B = (s1, AB)
        \<and> inj Reverse \<and> mono ToTS
        \<and> Update e Reverse ToTS db (GetResult s B) = (Returned res None, db1)
      \<longrightarrow> (holdsRow (rowOfTuple e ToTS) (statOf s (queries A) tk)
             (tuples db (tupleStoreKey Reverse tk))
           \<longrightarrow> holdsRow (rowOfTuple e ToTS) (statOf s1 (queries AB) tk)
                 (tuples db1 (tupleStoreKey Reverse tk)))
        \<and> (holdsRow (rowOfIndividual ToTS) (statOf s (vals A) ik)
             (individual db (individualStoreKey Reverse ik))
           \<longrightarrow> holdsRow (rowOfIndividual ToTS) (statOf s1 (vals AB) ik)
                 (individual db1 (individualStoreKey Reverse ik))))
   \<and> (\<not> beginTx_fails e \<and> (\<forall>k n. \<not> prepare_fails e k n) \<and> \<not> commit_fails e
        \<and> Tuples ar = [(k, st1), (k, st2)] \<and> Individual ar = []
        \<and> count st1 = 3 \<and> count st2 = 4
        \<and> int4in e (ttl st1) = Some t1 \<and> int4in e (ttl st2) = Some t2
        \<and> old = (case tuples db (Reverse (u_query k), u_qtype k, u_answer k) of
                   None \<Rightarrow> 0 | Some row \<Rightarrow> t_count row)
        \<and> int8_ok (old + 3) \<and> int8_ok (old + 7)
      \<longrightarrow> (\<exists>res db1 row.
             Update e Reverse ToTS db ar = (Returned res None, db1)
             \<and> tuples db1 (Reverse (u_query k), u_qtype k, u_answer k) = Some row
             \<and> t_count row = old + 7))"
proof -
  have p1: "update_tuples tab q ty a tt c f l =
     (case tab (q, ty, a) of
        None \<Rightarrow> Inr (tab((q, ty, a) \<mapsto> \<lparr>t_count = c, t_ttl = tt, t_first = f, t_last = l\<rparr>),
                     CHR ''I'')
      | Some row \<Rightarrow>
          if int8_ok (t_count row + c)
          then Inr (tab((q, ty, a) \<mapsto> \<lparr>t_count = t_count row + c, t_ttl = tt,
                                       t_first = min f (t_first row),
                                       t_last = max l (t_last row)\<rparr>), CHR ''U'')
          else Inl numeric_value_out_of_range)"
    by (rule update_tuples_eq)
  have p2: "update_individual itab w v c f l =
     (case itab (w, v) of
        None \<Rightarrow> Inr (itab((w, v) \<mapsto> \<lparr>i_count = c, i_first = f, i_last = l\<rparr>), CHR ''I'')
      | Some irow \<Rightarrow>
          if int8_ok (i_count irow + c)
          then Inr (itab((w, v) \<mapsto> \<lparr>i_count = i_count irow + c,
                                    i_first = min f (i_first irow),
                                    i_last = max l (i_last irow)\<rparr>), CHR ''U'')
          else Inl numeric_value_out_of_range)"
    by (rule update_individual_eq)
  have p3: "Update e Reverse ToTS db ar = (Returned res None, db1)
      \<longrightarrow> tuples db1 = fold (storeTuple_spec e Reverse ToTS) (Tuples ar) (tuples db)
        \<and> individual db1
            = fold (storeIndividual_spec Reverse ToTS) (Individual ar) (individual db)
        \<and> list_all (\<lambda>q. rowOfTuple e ToTS (snd q) \<noteq> None) (Tuples ar)"
    using Update_fold [of e Reverse ToTS db ar res db1] by (intro impI conjI)
  have p4: "wellFormed s A \<and> wellFormed s B \<and> separate A B \<and> Merge s A B = (s1, AB)
        \<and> inj Reverse \<and> mono ToTS
        \<and> Update e Reverse ToTS db (GetResult s B) = (Returned res None, db1)
      \<longrightarrow> (holdsRow (rowOfTuple e ToTS) (statOf s (queries A) tk)
             (tuples db (tupleStoreKey Reverse tk))
           \<longrightarrow> holdsRow (rowOfTuple e ToTS) (statOf s1 (queries AB) tk)
                 (tuples db1 (tupleStoreKey Reverse tk)))
        \<and> (holdsRow (rowOfIndividual ToTS) (statOf s (vals A) ik)
             (individual db (individualStoreKey Reverse ik))
           \<longrightarrow> holdsRow (rowOfIndividual ToTS) (statOf s1 (vals AB) ik)
                 (individual db1 (individualStoreKey Reverse ik)))"
    using Update_simulates_Merge [of s A B s1 AB Reverse ToTS e db res db1]
    by (intro impI conjI) simp_all
  have p5: "\<not> beginTx_fails e \<and> (\<forall>k n. \<not> prepare_fails e k n) \<and> \<not> commit_fails e
        \<and> Tuples ar = [(k, st1), (k, st2)] \<and> Individual ar = []
        \<and> count st1 = 3 \<and> count st2 = 4
        \<and> int4in e (ttl st1) = Some t1 \<and> int4in e (ttl st2) = Some t2
        \<and> old = (case tuples db (Reverse (u_query k), u_qtype k, u_answer k) of
                   None \<Rightarrow> 0 | Some row \<Rightarrow> t_count row)
        \<and> int8_ok (old + 3) \<and> int8_ok (old + 7)
      \<longrightarrow> (\<exists>res db1 row.
             Update e Reverse ToTS db ar = (Returned res None, db1)
             \<and> tuples db1 (Reverse (u_query k), u_qtype k, u_answer k) = Some row
             \<and> t_count row = old + 7)"
    using Update_two_rows [of e ar k st1 st2 t1 t2 old db Reverse ToTS] by blast
  show ?thesis
    by (rule conjI [OF p1 conjI [OF p2 conjI [OF p3 conjI [OF p4 p5]]]])
qed

text \<open>
  The theorem at a stored row of count 10 and two rows for its key with counts 3 and 4;
  and at an aggregator A with a tuple and its query, whose rows are stored, and an
  aggregator B with the same tuple, its query and its answer: the rows after \<open>Update\<close>
  with the snapshot of B, next to the statistics after \<open>Merge\<close>.
\<close>

theorem upsert_combine_semantics_witness:
  "(\<exists>res db1 row.
     Update plain_env rev (\<lambda>x. \<lfloor>x\<rfloor>)
       \<lparr>tuples = [(''c.ba'', ''A'', ''1.2.3.4'') \<mapsto>
                    \<lparr>t_count = 10, t_ttl = 300, t_first = 5, t_last = 6\<rparr>],
        individual = Map.empty\<rparr>
       \<lparr>TotalRecords = 7, SkippedRecords = 0,
        Tuples = [(\<lparr>u_query = ''ab.c'', u_answer = ''1.2.3.4'', u_qtype = ''A''\<rparr>,
                   \<lparr>count = 3, first = 7, last' = 8, ttl = ''60''\<rparr>),
                  (\<lparr>u_query = ''ab.c'', u_answer = ''1.2.3.4'', u_qtype = ''A''\<rparr>,
                   \<lparr>count = 4, first = 2, last' = 3, ttl = ''30''\<rparr>)],
        TuplesLen = 2, Individual = [], IndividualLen = 0\<rparr> = (Returned res None, db1)
     \<and> tuples db1 (''c.ba'', ''A'', ''1.2.3.4'') = Some row \<and> t_count row = 17)
   \<and> (\<exists>s1 AB res db1.
       Merge [\<lparr>count = 10, first = 5, last' = 6, ttl = ''300''\<rparr>,
              \<lparr>count = 12, first = 0, last' = 6, ttl = []\<rparr>,
              \<lparr>count = 3, first = 2, last' = 4, ttl = ''60''\<rparr>,
              \<lparr>count = 4, first = 1, last' = 9, ttl = []\<rparr>,
              \<lparr>count = 3, first = 2, last' = 4, ttl = ''60''\<rparr>]
         \<lparr>queries = [(\<lparr>u_query = ''ab.c'', u_answer = ''1.2.3.4'', u_qtype = ''A''\<rparr>, 0)],
          vals = [(\<lparr>u_value = ''ab.c'', u_which = ''Q''\<rparr>, 1)],
          totalRecords = 12, skippedRecords = 0\<rparr>
         \<lparr>queries = [(\<lparr>u_query = ''ab.c'', u_answer = ''1.2.3.4'', u_qtype = ''A''\<rparr>, 2)],
          vals = [(\<lparr>u_value = ''ab.c'', u_which = ''Q''\<rparr>, 3),
                  (\<lparr>u_value = ''1.2.3.4'', u_which = ''A''\<rparr>, 4)],
          totalRecords = 4, skippedRecords = 0\<rparr> = (s1, AB)
     \<and> Update plain_env rev (\<lambda>x. \<lfloor>x\<rfloor>)
         \<lparr>tuples = [(''c.ba'', ''A'', ''1.2.3.4'') \<mapsto>
                      \<lparr>t_count = 10, t_ttl = 300, t_first = 5, t_last = 6\<rparr>],
          individual = [(''Q'', ''c.ba'') \<mapsto> \<lparr>i_count = 12, i_first = 0, i_last = 6\<rparr>]\<rparr>
         \<lparr>TotalRecords = 4, SkippedRecords = 0,
          Tuples = [(\<lparr>u_query = ''ab.c'', u_answer = ''1.2.3.4'', u_qtype = ''A''\<rparr>,
                     \<lparr>count = 3, first = 2, last' = 4, ttl = ''60''\<rparr>)],
          TuplesLen = 1,
          Individual = [(\<lparr>u_value = ''ab.c'', u_which = ''Q''\<rparr>,
                         \<lparr>count = 4, first = 1, last' = 9, ttl = []\<rparr>),
                        (\<lparr>u_value = ''1.2.3.4'', u_which = ''A''\<rparr>,
                         \<lparr>count = 3, first = 2, last' = 4, ttl = ''60''\<rparr>)],
          IndividualLen = 2\<rparr> = (Returned res None, db1)
     \<and> statOf s1 (queries AB) \<lparr>u_query = ''ab.c'', u_answer = ''1.2.3.4'', u_qtype = ''A''\<rparr>
         = Some \<lparr>count = 13, first = 2, last' = 6, ttl = ''60''\<rparr>
     \<and> tuples db1 (''c.ba'', ''A'', ''1.2.3.4'')
         = Some \<lparr>t_count = 13, t_ttl = 60, t_first = 2, t_last = 6\<rparr>
     \<and> statOf s1 (vals AB) \<lparr>u_value = ''ab.c'', u_which = ''Q''\<rparr>
         = Some \<lparr>count = 16, first = 0, last' = 9, ttl = []\<rparr>
     \<and> individual db1 (''Q'', ''c.ba'') = Some \<lparr>i_count = 16, i_first = 0, i_last = 9\<rparr>
     \<and> individual db1 (''A'', ''1.2.3.4'') = Some \<lparr>i_count = 3, i_first = 2, i_last = 4\<rparr>)"
proof -
  let ?k = "\<lparr>u_query = ''ab.c'', u_answer = ''1.2.3.4'', u_qtype = ''A''\<rparr>"
  let ?qv = "\<lparr>u_value = ''ab.c'', u_which = ''Q''\<rparr>"
  let ?av = "\<lparr>u_value = ''1.2.3.4'', u_which = ''A''\<rparr>"
  let ?st1 = "\<lparr>count = 3, first = 7, last' = 8, ttl = ''60''\<rparr>"
  let ?st2 = "\<lparr>count = 4, first = 2, last' = 3, ttl = ''30''\<rparr>"
  let ?db = "\<lparr>tuples = [(''c.ba'', ''A'', ''1.2.3.4'') \<mapsto>
                    \<lparr>t_count = 10, t_ttl = 300, t_first = 5, t_last = 6\<rparr>],
        individual = Map.empty\<rparr>"
  let ?ar = "\<lparr>TotalRecords = 7, SkippedRecords = 0, Tuples = [(?k, ?st1), (?k, ?st2)],
        TuplesLen = 2, Individual = [], IndividualLen = 0\<rparr>"
  let ?S = "[\<lparr>count = 10, first = 5, last' = 6, ttl = ''300''\<rparr>,
              \<lparr>count = 12, first = 0, last' = 6, ttl = []\<rparr>,
              \<lparr>count = 3, first = 2, last' = 4, ttl = ''60''\<rparr>,
              \<lparr>count = 4, first = 1, last' = 9, ttl = []\<rparr>,
              \<lparr>count = 3, first = 2, last' = 4, ttl = ''60''\<rparr>]"
  let ?A = "\<lparr>queries = [(?k, 0)], vals = [(?qv, 1)], totalRecords = 12, skippedRecords = 0\<rparr>"
  let ?B = "\<lparr>queries = [(?k, 2)], vals = [(?qv, 3), (?av, 4)],
          totalRecords = 4, skippedRecords = 0\<rparr>"
  let ?DB = "\<lparr>tuples = [(''c.ba'', ''A'', ''1.2.3.4'') \<mapsto>
                      \<lparr>t_count = 10, t_ttl = 300, t_first = 5, t_last = 6\<rparr>],
          individual = [(''Q'', ''c.ba'') \<mapsto> \<lparr>i_count = 12, i_first = 0, i_last = 6\<rparr>]\<rparr>"
  let ?AR = "\<lparr>TotalRecords = 4, SkippedRecords = 0,
          Tuples = [(?k, \<lparr>count = 3, first = 2, last' = 4, ttl = ''60''\<rparr>)],
          TuplesLen = 1,
          Individual = [(?qv, \<lparr>count = 4, first = 1, last' = 9, ttl = []\<rparr>),
                        (?av, \<lparr>count = 3, first = 2, last' = 4, ttl = ''60''\<rparr>)],
          IndividualLen = 2\<rparr>"
  have env: "\<not> beginTx_fails plain_env" "\<forall>k n. \<not> prepare_fails plain_env k n"
    by (simp_all add: plain_env_def)
  have h: "\<not> beginTx_fails plain_env \<and> (\<forall>k n. \<not> prepare_fails plain_env k n)
        \<and> \<not> commit_fails plain_env
        \<and> Tuples ?ar = [(?k, ?st1), (?k, ?st2)] \<and> Individual ?ar = []
        \<and> count ?st1 = 3 \<and> count ?st2 = 4
        \<and> int4in plain_env (ttl ?st1) = Some 60 \<and> int4in plain_env (ttl ?st2) = Some 30
        \<and> (10::int) = (case tuples ?db (rev (u_query ?k), u_qtype ?k, u_answer ?k) of
                   None \<Rightarrow> 0 | Some row \<Rightarrow> t_count row)
        \<and> int8_ok (10 + 3) \<and> int8_ok (10 + 7)"
    by (simp add: plain_env_def decimal_int4_def int4_ok_def int8_ok_def)
  have "\<exists>res db1 row.
             Update plain_env rev (\<lambda>x. \<lfloor>x\<rfloor>) ?db ?ar = (Returned res None, db1)
             \<and> tuples db1 (rev (u_query ?k), u_qtype ?k, u_answer ?k) = Some row
             \<and> t_count row = 10 + 7"
    using upsert_combine_semantics [where e = plain_env and ar = ?ar and k = ?k and ?st1.0 = ?st1
        and ?st2.0 = ?st2 and ?t1.0 = 60 and ?t2.0 = 30 and old = 10 and db = ?db
        and Reverse = rev and ToTS = "\<lambda>x. \<lfloor>x\<rfloor>",
        THEN conjunct2, THEN conjunct2, THEN conjunct2, THEN conjunct2] h
    by blast
  then have part1: "\<exists>res db1 row.
     Update plain_env rev (\<lambda>x. \<lfloor>x\<rfloor>) ?db ?ar = (Returned res None, db1)
     \<and> tuples db1 (''c.ba'', ''A'', ''1.2.3.4'') = Some row \<and> t_count row = 17"
    by simp
  have gr: "GetResult ?S ?B = ?AR" by (simp add: GetResult_def)
  obtain s1 AB where m: "Merge ?S ?A ?B = (s1, AB)" by (cases "Merge ?S ?A ?B")
  obtain res db1 where u: "Update plain_env rev (\<lambda>x. \<lfloor>x\<rfloor>) ?DB ?AR = (Returned res None, db1)"
    unfolding Update_eq [OF env] by (simp add: store_defs)
  have wf: "wellFormed ?S ?A" "wellFormed ?S ?B"
    by (simp_all add: wellFormed_def heldAddrs_def allocated_def)
  have sep: "separate ?A ?B" by (simp add: separate_def heldAddrs_def)
  have mono: "mono (\<lambda>x :: real. \<lfloor>x\<rfloor>)" by (simp add: mono_def floor_mono)
  have inj: "inj (rev :: string \<Rightarrow> string)" by simp
  have hk: "holdsRow (rowOfTuple plain_env (\<lambda>x. \<lfloor>x\<rfloor>)) (statOf ?S (queries ?A) ?k)
      (tuples ?DB (tupleStoreKey rev ?k))"
    by (simp add: statOf_def rowOfTuple_def tupleStoreKey_def plain_env_def decimal_int4_def
          int4_ok_def)
  have hq: "holdsRow (rowOfIndividual (\<lambda>x. \<lfloor>x\<rfloor>)) (statOf ?S (vals ?A) ?qv)
      (individual ?DB (individualStoreKey rev ?qv))"
    by (simp add: statOf_def rowOfIndividual_def individualStoreKey_def)
  have sim: "holdsRow (rowOfTuple plain_env (\<lambda>x. \<lfloor>x\<rfloor>)) (statOf s1 (queries AB) ?k)
            (tuples db1 (tupleStoreKey rev ?k))
        \<and> holdsRow (rowOfIndividual (\<lambda>x. \<lfloor>x\<rfloor>)) (statOf s1 (vals AB) ?qv)
            (individual db1 (individualStoreKey rev ?qv))"
    using upsert_combine_semantics [where e = plain_env and Reverse = rev
        and ToTS = "\<lambda>x. \<lfloor>x\<rfloor>" and s = ?S and A = ?A and B = ?B and ?s1.0 = s1 and AB = AB
        and db = ?DB and res = res and ?db1.0 = db1 and tk = ?k and ik = ?qv,
        THEN conjunct2, THEN conjunct2, THEN conjunct2, THEN conjunct1]
      wf sep m inj mono hk hq u
    unfolding gr by (simp only: simp_thms)
  have fold: "individual db1
            = fold (storeIndividual_spec rev (\<lambda>x. \<lfloor>x\<rfloor>)) (Individual ?AR) (individual ?DB)"
    using upsert_combine_semantics [where e = plain_env and Reverse = rev
        and ToTS = "\<lambda>x. \<lfloor>x\<rfloor>" and db = ?DB and ar = ?AR and res = res and ?db1.0 = db1,
        THEN conjunct2, THEN conjunct2, THEN conjunct1] u
    by (simp only: simp_thms)
  have mk: "statOf s1 (queries AB) ?k = Some \<lparr>count = 13, first = 2, last' = 6, ttl = ''60''\<rparr>"
    and mq: "statOf s1 (vals AB) ?qv = Some \<lparr>count = 16, first = 0, last' = 9, ttl = []\<rparr>"
    using m by (auto simp: Merge_def mergeStat_def statOf_def)
  have rk: "tuples db1 (''c.ba'', ''A'', ''1.2.3.4'')
         = Some \<lparr>t_count = 13, t_ttl = 60, t_first = 2, t_last = 6\<rparr>"
    using holdsRow_SomeD [OF sim [THEN conjunct1, unfolded mk]]
    by (simp add: rowOfTuple_def tupleStoreKey_def plain_env_def decimal_int4_def int4_ok_def)
  have rq: "individual db1 (''Q'', ''c.ba'') = Some \<lparr>i_count = 16, i_first = 0, i_last = 9\<rparr>"
    using holdsRow_SomeD [OF sim [THEN conjunct2, unfolded mq]]
    by (simp add: rowOfIndividual_def individualStoreKey_def)
  have ra: "individual db1 (''A'', ''1.2.3.4'') = Some \<lparr>i_count = 3, i_first = 2, i_last = 4\<rparr>"
    unfolding fold
    by (simp add: storeIndividual_spec_def rowOfIndividual_def individualStoreKey_def
          upsert_spec_def combineIndividual_spec_def)
  have part2: "\<exists>s1 AB res db1.
       Merge ?S ?A ?B = (s1, AB)
     \<and> Update plain_env rev (\<lambda>x. \<lfloor>x\<rfloor>) ?DB ?AR = (Returned res None, db1)
     \<and> statOf s1 (queries AB) ?k = Some \<lparr>count = 13, first = 2, last' = 6, ttl = ''60''\<rparr>
     \<and> tuples db1 (''c.ba'', ''A'', ''1.2.3.4'')
         = Some \<lparr>t_count = 13, t_ttl = 60, t_first = 2, t_last = 6\<rparr>
     \<and> statOf s1 (vals AB) ?qv = Some \<lparr>count = 16, first = 0, last' = 9, ttl = []\<rparr>
     \<and> individual db1 (''Q'', ''c.ba'') = Some \<lparr>i_count = 16, i_first = 0, i_last = 9\<rparr>
     \<and> individual db1 (''A'', ''1.2.3.4'') = Some \<lparr>i_count = 3, i_first = 2, i_last = 4\<rparr>"
    by (intro exI conjI) (rule m u mk rk mq rq ra)+
  show ?thesis by (rule conjI [OF part1 part2])
qed

end
